theory Spec2Isabelle
  imports Complex_Main
begin

section \<open>The schedule manager of lime: data model\<close>

text \<open>
  The theory embeds \<^verbatim>\<open>lime/src/schedulemanager.js\<close>. The schedule manager is a
  singleton object holding a stack of tasks; a task holds a stack of registrations, each
  the three-element array \<^verbatim>\<open>[1, f, context]\<close>. Timer ticks are handed to every task,
  which fires its registrations once enough time has accumulated.

  JavaScript values that reach the manager as callbacks and contexts are functions and
  objects (compared by identity), or \<^verbatim>\<open>undefined\<close> and \<^verbatim>\<open>null\<close> when an argument
  is left out. Times are milliseconds, modelled as integers: on integers of this size the
  double arithmetic of the source is exact.
\<close>

datatype jsval = Undefined | Null | Fn nat | Obj nat

datatype error = TypeError

text \<open>\<^verbatim>\<open>goog.isFunction\<close> and the loose equality \<^verbatim>\<open>==\<close> on these values.\<close>

fun goog_isFunction :: "jsval \<Rightarrow> bool" where
  "goog_isFunction (Fn n) = True"
| "goog_isFunction v = False"

fun loose_eq :: "jsval \<Rightarrow> jsval \<Rightarrow> bool" where
  "loose_eq Undefined Null = True"
| "loose_eq Null Undefined = True"
| "loose_eq a b = (a = b)"

text \<open>
  A registration is the array \<^verbatim>\<open>[1, f, context]\<close>. The array is an object with an
  identity of its own, \<open>rid\<close>; slot 0 is read for its truthiness only.
\<close>

record reg =
  rid :: nat
  active :: bool
  callback :: jsval
  ctx :: jsval

record Task =
  delta :: int
  maxdelta :: int
  limit :: int
  functionStack_' :: "reg list"

text \<open>
  What \<^verbatim>\<open>taskStack_\<close> and the arguments of \<^verbatim>\<open>goog.array.remove\<close> can refer to: a task
  object, or the \<^verbatim>\<open>functionStack_\<close> array of a task. The two are different objects.
\<close>

datatype objref = TaskRef nat | ArrayRef nat

text \<open>The calls the manager makes to the host window, in the order made.\<close>

datatype host_call =
    SetInterval rat
  | ClearInterval nat
  | MozRequestAnimationFrame
  | AddMozBeforePaintListener
  | RemoveMozBeforePaintListener
  | WebkitRequestAnimationFrame
  | WebkitCancelRequestAnimationFrame

text \<open>
  The manager's own fields (lines 14 to 51 and 102), the task objects it can reach
  (\<open>heap\<close>, with \<open>next_id\<close> the next fresh object identity), the host (\<open>now\<close> is what
  \<^verbatim>\<open>goog.now()\<close> returns, \<open>moz\<close> whether \<^verbatim>\<open>window.mozRequestAnimationFrame\<close> exists,
  \<open>host\<close> the calls made to the window), and \<open>calls\<close>, the callback invocations made so
  far: the registration invoked and the elapsed time it was given.
\<close>

record scheduleManager =
  taskStack_' :: "objref list"
  active_' :: bool
  intervalID_' :: nat
  displayRate_' :: rat
  lastRunTime_' :: int
  USE_ANIMATION_FRAME :: bool
  heap :: "nat \<rightharpoonup> Task"
  next_id :: nat
  now :: int
  moz :: bool
  host :: "host_call list"
  calls :: "(reg \<times> int) list"

text \<open>
  What a callback does when invoked is, for the manager, the calls it makes back into the
  manager's interface and the time it takes: \<open>Elapse d\<close> is \<open>d\<close> milliseconds passing,
  after which \<^verbatim>\<open>goog.now()\<close> returns \<open>d\<close> more. \<open>body\<close> gives them for each
  function; \<open>getDirector\<close> gives, for a context that has a \<^verbatim>\<open>getDirector\<close> method,
  what the method returns.
\<close>

datatype action =
    Schedule jsval jsval "nat option"
  | Unschedule jsval jsval
  | ScheduleWithDelay jsval jsval int "int option"
  | CallAfter jsval jsval int
  | ChangeDirectorActivity jsval bool
  | SetDisplayRate rat
  | Elapse int

record app =
  body :: "nat \<Rightarrow> action list"
  getDirector :: "jsval \<Rightarrow> jsval option"

section \<open>Closure Library helpers\<close>

text \<open>
  \<^verbatim>\<open>goog.array.insert(arr, obj)\<close> pushes \<open>obj\<close> unless \<open>arr\<close> already contains it, and
  \<^verbatim>\<open>goog.array.remove(arr, obj)\<close> removes the first occurrence of \<open>obj\<close>, if any; both
  look \<open>obj\<close> up with \<^verbatim>\<open>===\<close>, which on objects is identity. \<open>ident\<close> gives the
  identity of an element.
\<close>

fun goog_array_contains :: "('a \<Rightarrow> 'b) \<Rightarrow> 'a list \<Rightarrow> 'a \<Rightarrow> bool" where
  "goog_array_contains ident [] obj = False"
| "goog_array_contains ident (x # arr) obj =
     (if ident x = ident obj then True else goog_array_contains ident arr obj)"

definition goog_array_insert :: "('a \<Rightarrow> 'b) \<Rightarrow> 'a list \<Rightarrow> 'a \<Rightarrow> 'a list" where
  "goog_array_insert ident arr obj =
     (if \<not> goog_array_contains ident arr obj then arr @ [obj] else arr)"

fun goog_array_remove :: "('a \<Rightarrow> 'b) \<Rightarrow> 'a list \<Rightarrow> 'a \<Rightarrow> 'a list" where
  "goog_array_remove ident [] obj = []"
| "goog_array_remove ident (x # arr) obj =
     (if ident x = ident obj then arr else x # goog_array_remove ident arr obj)"

section \<open>Tasks and the manager\<close>

text \<open>The constructor \<^verbatim>\<open>lime.scheduleManager.Task\<close> (lines 59 to 63).\<close>

definition Task_new :: "int \<Rightarrow> int option \<Rightarrow> Task" where
  "Task_new md opt_limit =
     \<lparr>delta = md, maxdelta = md,
      limit = (case opt_limit of Some l \<Rightarrow> l | None \<Rightarrow> - 1),
      functionStack_' = []\<rparr>"

text \<open>\<^verbatim>\<open>new lime.scheduleManager.Task(..)\<close>: the new object and the state holding it.\<close>

definition alloc_Task :: "int \<Rightarrow> int option \<Rightarrow> scheduleManager \<Rightarrow> nat \<times> scheduleManager" where
  "alloc_Task md opt_limit s =
     (next_id s,
      s\<lparr>heap := (heap s)(next_id s \<mapsto> Task_new md opt_limit), next_id := Suc (next_id s)\<rparr>)"

text \<open>
  The manager as the script leaves it once loaded (lines 14 to 51, 95 and 102): the
  default task, of delay 0, is object 0 and sits at index 0 of the stack.
\<close>

definition init :: "bool \<Rightarrow> bool \<Rightarrow> int \<Rightarrow> scheduleManager" where
  "init use_animation_frame is_moz t =
     \<lparr>taskStack_' = [TaskRef 0], active_' = False, intervalID_' = 0,
      displayRate_' = 1000 / 30, lastRunTime_' = 0,
      USE_ANIMATION_FRAME = use_animation_frame,
      heap = [0 \<mapsto> Task_new 0 None], next_id = 1,
      now = t, moz = is_moz, host = [], calls = []\<rparr>"

definition getDisplayRate :: "scheduleManager \<Rightarrow> rat" where
  "getDisplayRate s = displayRate_' s"

text \<open>\<^verbatim>\<open>activate_\<close> (lines 182 to 204) and \<^verbatim>\<open>disable_\<close> (lines 213 to 229).\<close>

definition activate_' :: "scheduleManager \<Rightarrow> scheduleManager" where
  "activate_' s =
     (if active_' s then s
      else
        let s1 = s\<lparr>lastRunTime_' := now s\<rparr>;
            s2 = (if USE_ANIMATION_FRAME s1 then
                    (if moz s1
                     then s1\<lparr>host := host s1 @ [MozRequestAnimationFrame, AddMozBeforePaintListener]\<rparr>
                     else s1\<lparr>host := host s1 @ [WebkitRequestAnimationFrame]\<rparr>)
                  else s1\<lparr>host := host s1 @ [SetInterval (getDisplayRate s1)],
                          intervalID_' := Suc (length (host s1))\<rparr>)
        in s2\<lparr>active_' := True\<rparr>)"

definition disable_' :: "scheduleManager \<Rightarrow> scheduleManager" where
  "disable_' s =
     (if \<not> active_' s then s
      else
        let s1 = (if USE_ANIMATION_FRAME s then
                    (if moz s
                     then s\<lparr>host := host s @ [RemoveMozBeforePaintListener]\<rparr>
                     else s\<lparr>host := host s @ [WebkitCancelRequestAnimationFrame]\<rparr>)
                  else s\<lparr>host := host s @ [ClearInterval (intervalID_' s)]\<rparr>)
        in s1\<lparr>active_' := False\<rparr>)"

text \<open>\<^verbatim>\<open>setDisplayRate\<close> (lines 123 to 129).\<close>

definition setDisplayRate :: "rat \<Rightarrow> scheduleManager \<Rightarrow> scheduleManager" where
  "setDisplayRate v s =
     (let s1 = s\<lparr>displayRate_' := v\<rparr>
      in if active_' s1 then activate_' (disable_' s1) else s1)"

text \<open>
  Reading \<^verbatim>\<open>x.functionStack_\<close>: on a task it is the task's array, on anything else
  \<^verbatim>\<open>undefined\<close> (\<open>None\<close>).
\<close>

fun get_functionStack_' :: "scheduleManager \<Rightarrow> objref \<Rightarrow> reg list option" where
  "get_functionStack_' s (TaskRef tid) = map_option functionStack_' (heap s tid)"
| "get_functionStack_' s (ArrayRef tid) = None"

text \<open>
  \<^verbatim>\<open>schedule\<close> (lines 139 to 146). \<open>opt_task\<close> is the task object passed, if any. The
  array literal \<^verbatim>\<open>[1, f, context]\<close> is a new object each time.
\<close>

definition schedule ::
  "jsval \<Rightarrow> jsval \<Rightarrow> nat option \<Rightarrow> scheduleManager \<Rightarrow> error + scheduleManager" where
  "schedule f c opt_task s =
     (case (case opt_task of
              Some tid \<Rightarrow> Some (TaskRef tid)
            | None \<Rightarrow> (case taskStack_' s of [] \<Rightarrow> None | r # rs \<Rightarrow> Some r)) of
        None \<Rightarrow> Inl TypeError
      | Some (ArrayRef a) \<Rightarrow> Inl TypeError
      | Some (TaskRef tid) \<Rightarrow>
          (case heap s tid of
             None \<Rightarrow> Inl TypeError
           | Some t \<Rightarrow>
               let r = \<lparr>rid = next_id s, active = True, callback = f, ctx = c\<rparr>;
                   s1 = s\<lparr>heap := (heap s)(tid \<mapsto>
                             t\<lparr>functionStack_' := goog_array_insert rid (functionStack_' t) r\<rparr>),
                          next_id := Suc (next_id s)\<rparr>;
                   s2 = s1\<lparr>taskStack_' := goog_array_insert id (taskStack_' s1) (TaskRef tid)\<rparr>
               in Inr (if \<not> active_' s2 then activate_' s2 else s2)))"

text \<open>
  \<^verbatim>\<open>unschedule\<close> (lines 154 to 175). The inner loop walks one function stack downwards
  from index \<open>i - 1\<close>, the outer loop the task stack downwards from index \<open>j - 1\<close>; both
  read the array as it is at that moment. Line 167 hands \<^verbatim>\<open>goog.array.remove\<close> the
  function stack of the task, not the task.
\<close>

fun unschedule_inner :: "jsval \<Rightarrow> jsval \<Rightarrow> nat \<Rightarrow> reg list \<Rightarrow> error + reg list" where
  "unschedule_inner f c 0 fs = Inr fs"
| "unschedule_inner f c (Suc i) fs =
     (if i < length fs then
        (let fi = fs ! i
         in if loose_eq (callback fi) f \<and> loose_eq (ctx fi) c
            then unschedule_inner f c i (goog_array_remove rid fs fi)
            else unschedule_inner f c i fs)
      else Inl TypeError)"

fun unschedule_outer :: "jsval \<Rightarrow> jsval \<Rightarrow> nat \<Rightarrow> scheduleManager \<Rightarrow> error + scheduleManager" where
  "unschedule_outer f c 0 s = Inr s"
| "unschedule_outer f c (Suc j) s =
     (if j < length (taskStack_' s) then
        (case taskStack_' s ! j of
           ArrayRef a \<Rightarrow> Inl TypeError
         | TaskRef tid \<Rightarrow>
             (case heap s tid of
                None \<Rightarrow> Inl TypeError
              | Some t \<Rightarrow>
                  (case unschedule_inner f c (length (functionStack_' t)) (functionStack_' t) of
                     Inl e \<Rightarrow> Inl e
                   | Inr fs \<Rightarrow>
                       let s1 = s\<lparr>heap := (heap s)(tid \<mapsto> t\<lparr>functionStack_' := fs\<rparr>)\<rparr>;
                           s2 = (if length fs = 0 \<and> j \<noteq> 0
                                 then s1\<lparr>taskStack_' :=
                                          goog_array_remove id (taskStack_' s1) (ArrayRef tid)\<rparr>
                                 else s1)
                       in unschedule_outer f c j s2)))
      else Inl TypeError)"

definition unschedule :: "jsval \<Rightarrow> jsval \<Rightarrow> scheduleManager \<Rightarrow> error + scheduleManager" where
  "unschedule f c s =
     (case unschedule_outer f c (length (taskStack_' s)) s of
        Inl e \<Rightarrow> Inl e
      | Inr s1 \<Rightarrow>
          if length (taskStack_' s1) = 1 then
            (case get_functionStack_' s1 (taskStack_' s1 ! 0) of
               None \<Rightarrow> Inl TypeError
             | Some fs \<Rightarrow> if length fs = 0 then Inr (disable_' s1) else Inr s1)
          else Inr s1)"

text \<open>
  \<^verbatim>\<open>changeDirectorActivity\<close> (lines 286 to 302). Reading \<^verbatim>\<open>context.getDirector\<close> on
  \<^verbatim>\<open>undefined\<close> or \<^verbatim>\<open>null\<close> throws.
\<close>

fun changeDirectorActivity_inner ::
  "(jsval \<Rightarrow> jsval option) \<Rightarrow> jsval \<Rightarrow> bool \<Rightarrow> nat \<Rightarrow> reg list \<Rightarrow> error + reg list" where
  "changeDirectorActivity_inner G director v 0 fs = Inr fs"
| "changeDirectorActivity_inner G director v (Suc i) fs =
     (if i < length fs then
        (let f = fs ! i; context = ctx f
         in if context = Undefined \<or> context = Null then Inl TypeError
            else
              (case G context of
                 Some d \<Rightarrow>
                   if loose_eq d director
                   then changeDirectorActivity_inner G director v i (fs[i := f\<lparr>active := v\<rparr>])
                   else changeDirectorActivity_inner G director v i fs
               | None \<Rightarrow> changeDirectorActivity_inner G director v i fs))
      else Inl TypeError)"

fun changeDirectorActivity_outer ::
  "(jsval \<Rightarrow> jsval option) \<Rightarrow> jsval \<Rightarrow> bool \<Rightarrow> nat \<Rightarrow> scheduleManager \<Rightarrow> error + scheduleManager" where
  "changeDirectorActivity_outer G director v 0 s = Inr s"
| "changeDirectorActivity_outer G director v (Suc j) s =
     (if j < length (taskStack_' s) then
        (case taskStack_' s ! j of
           ArrayRef a \<Rightarrow> Inl TypeError
         | TaskRef tid \<Rightarrow>
             (case heap s tid of
                None \<Rightarrow> Inl TypeError
              | Some t \<Rightarrow>
                  (case changeDirectorActivity_inner G director v
                          (length (functionStack_' t)) (functionStack_' t) of
                     Inl e \<Rightarrow> Inl e
                   | Inr fs \<Rightarrow>
                       changeDirectorActivity_outer G director v j
                         (s\<lparr>heap := (heap s)(tid \<mapsto> t\<lparr>functionStack_' := fs\<rparr>)\<rparr>))))
      else Inl TypeError)"

definition changeDirectorActivity ::
  "(jsval \<Rightarrow> jsval option) \<Rightarrow> jsval \<Rightarrow> bool \<Rightarrow> scheduleManager \<Rightarrow> error + scheduleManager" where
  "changeDirectorActivity G director v s =
     changeDirectorActivity_outer G director v (length (taskStack_' s)) s"

text \<open>\<^verbatim>\<open>scheduleWithDelay\<close> (lines 322 to 326) and \<^verbatim>\<open>callAfter\<close> (lines 310 to 312).\<close>

definition scheduleWithDelay ::
  "jsval \<Rightarrow> jsval \<Rightarrow> int \<Rightarrow> int option \<Rightarrow> scheduleManager \<Rightarrow> error + scheduleManager" where
  "scheduleWithDelay f c delay opt_limit s =
     (case alloc_Task delay opt_limit s of (task, s1) \<Rightarrow> schedule f c (Some task) s1)"

definition callAfter :: "jsval \<Rightarrow> jsval \<Rightarrow> int \<Rightarrow> scheduleManager \<Rightarrow> error + scheduleManager" where
  "callAfter f c delay s = scheduleWithDelay f c delay (Some 1) s"

section \<open>Firing\<close>

text \<open>
  Invoking a callback: the invocation is recorded and the callback's calls into the
  manager run, in order, the clock advancing as the callback says; an exception ends the
  run.
\<close>

fun run_action :: "app \<Rightarrow> action \<Rightarrow> scheduleManager \<Rightarrow> error + scheduleManager" where
  "run_action A (Schedule f c opt_task) s = schedule f c opt_task s"
| "run_action A (Unschedule f c) s = unschedule f c s"
| "run_action A (ScheduleWithDelay f c delay opt_limit) s = scheduleWithDelay f c delay opt_limit s"
| "run_action A (CallAfter f c delay) s = callAfter f c delay s"
| "run_action A (ChangeDirectorActivity director v) s =
     changeDirectorActivity (getDirector A) director v s"
| "run_action A (SetDisplayRate v) s = Inr (setDisplayRate v s)"
| "run_action A (Elapse d) s = Inr (s\<lparr>now := now s + d\<rparr>)"

fun run_actions :: "app \<Rightarrow> action list \<Rightarrow> scheduleManager \<Rightarrow> error + scheduleManager" where
  "run_actions A [] s = Inr s"
| "run_actions A (a # as) s =
     (case run_action A a s of Inl e \<Rightarrow> Inl e | Inr s' \<Rightarrow> run_actions A as s')"

fun call :: "app \<Rightarrow> reg \<Rightarrow> int \<Rightarrow> scheduleManager \<Rightarrow> error + scheduleManager" where
  "call A r d s =
     (case callback r of
        Fn n \<Rightarrow> run_actions A (body A n) (s\<lparr>calls := calls s @ [(r, d)]\<rparr>)
      | _ \<Rightarrow> Inl TypeError)"

text \<open>
  \<^verbatim>\<open>Task.prototype.step_\<close> (lines 70 to 93). \<open>step_fire\<close> is the loop of lines 80 to
  85 with \<open>Suc i\<close> the value of \<^verbatim>\<open>i\<close> before \<^verbatim>\<open>--i\<close>; the variable \<^verbatim>\<open>f\<close> is
  \<^verbatim>\<open>undefined\<close> (\<open>None\<close>) after a read past the end of the array. \<open>step_limit\<close> is
  lines 86 to 91.
\<close>

fun step_fire ::
  "app \<Rightarrow> nat \<Rightarrow> int \<Rightarrow> nat \<Rightarrow> reg option \<Rightarrow> scheduleManager \<Rightarrow>
   error + (reg option \<times> scheduleManager)" where
  "step_fire A this d 0 f s = Inr (f, s)"
| "step_fire A this d (Suc i) f s =
     (case heap s this of
        None \<Rightarrow> Inl TypeError
      | Some t \<Rightarrow>
          (if i < length (functionStack_' t) then
             (let f' = functionStack_' t ! i
              in if active f' \<and> goog_isFunction (callback f') then
                   (case call A f' d s of
                      Inl e \<Rightarrow> Inl e
                    | Inr s' \<Rightarrow> step_fire A this d i (Some f') s')
                 else step_fire A this d i (Some f') s)
           else step_fire A this d i None s))"

definition step_limit :: "nat \<Rightarrow> reg option \<Rightarrow> scheduleManager \<Rightarrow> error + scheduleManager" where
  "step_limit this f s =
     (case heap s this of
        None \<Rightarrow> Inl TypeError
      | Some t \<Rightarrow>
          if limit t \<noteq> - 1 then
            (let t' = t\<lparr>limit := limit t - 1\<rparr>;
                 s' = s\<lparr>heap := (heap s)(this \<mapsto> t')\<rparr>
             in if limit t' = 0 then
                  (case f of
                     None \<Rightarrow> Inl TypeError
                   | Some r \<Rightarrow> unschedule (callback r) (ctx r) s')
                else Inr s')
          else Inr s)"

definition step_' :: "app \<Rightarrow> nat \<Rightarrow> int \<Rightarrow> scheduleManager \<Rightarrow> error + scheduleManager" where
  "step_' A this dt s =
     (case heap s this of
        None \<Rightarrow> Inl TypeError
      | Some t \<Rightarrow>
          if length (functionStack_' t) = 0 then Inr s
          else if delta t > dt then Inr (s\<lparr>heap := (heap s)(this \<mapsto> t\<lparr>delta := delta t - dt\<rparr>)\<rparr>)
          else
            (let d = maxdelta t + dt - delta t;
                 nd = maxdelta t - (dt - delta t);
                 t1 = t\<lparr>delta := (if nd < 0 then 0 else nd)\<rparr>;
                 s1 = s\<lparr>heap := (heap s)(this \<mapsto> t1)\<rparr>
             in case step_fire A this d (length (functionStack_' t1)) None s1 of
                  Inl e \<Rightarrow> Inl e
                | Inr (f, s2) \<Rightarrow> step_limit this f s2))"

text \<open>\<^verbatim>\<open>dispatch_\<close> (lines 273 to 278).\<close>

fun dispatch_loop :: "app \<Rightarrow> int \<Rightarrow> nat \<Rightarrow> scheduleManager \<Rightarrow> error + scheduleManager" where
  "dispatch_loop A dt 0 s = Inr s"
| "dispatch_loop A dt (Suc i) s =
     (if i < length (taskStack_' s) then
        (case taskStack_' s ! i of
           ArrayRef a \<Rightarrow> Inl TypeError
         | TaskRef tid \<Rightarrow>
             (case step_' A tid dt s of
                Inl e \<Rightarrow> Inl e
              | Inr s' \<Rightarrow> dispatch_loop A dt i s'))
      else Inl TypeError)"

definition dispatch_' :: "app \<Rightarrow> int \<Rightarrow> scheduleManager \<Rightarrow> error + scheduleManager" where
  "dispatch_' A dt s = dispatch_loop A dt (length (taskStack_' s)) s"

text \<open>
  The tick handlers: \<^verbatim>\<open>stepTimer_\<close> (lines 258 to 265) for the interval timer, with
  \<open>stepTimer_delta\<close> the value of its variable \<^verbatim>\<open>delta\<close> at line 263,
  \<^verbatim>\<open>animationFrameHandler_\<close> (lines 235 to 240) and \<^verbatim>\<open>beforePaintHandler_\<close> (lines 246
  to 251) for the animation frame variants, which are given the time by the host.
\<close>

definition stepTimer_delta :: "scheduleManager \<Rightarrow> int" where
  "stepTimer_delta s =
     (let curTime = now s;
          d = curTime - lastRunTime_' s
      in if d < 0 then 1 else d)"

definition stepTimer_' :: "app \<Rightarrow> scheduleManager \<Rightarrow> error + scheduleManager" where
  "stepTimer_' A s =
     (let curTime = now s
      in case dispatch_' A (stepTimer_delta s) s of
           Inl e \<Rightarrow> Inl e
         | Inr s' \<Rightarrow> Inr (s'\<lparr>lastRunTime_' := curTime\<rparr>))"

definition animationFrameHandler_' :: "app \<Rightarrow> int \<Rightarrow> scheduleManager \<Rightarrow> error + scheduleManager" where
  "animationFrameHandler_' A time s =
     (let d = time - lastRunTime_' s
      in case dispatch_' A d s of
           Inl e \<Rightarrow> Inl e
         | Inr s' \<Rightarrow>
             Inr (s'\<lparr>lastRunTime_' := time, host := host s' @ [WebkitRequestAnimationFrame]\<rparr>))"

definition beforePaintHandler_' :: "app \<Rightarrow> int \<Rightarrow> scheduleManager \<Rightarrow> error + scheduleManager" where
  "beforePaintHandler_' A timeStamp s =
     (let d = timeStamp - lastRunTime_' s
      in case dispatch_' A d s of
           Inl e \<Rightarrow> Inl e
         | Inr s' \<Rightarrow>
             Inr (s'\<lparr>lastRunTime_' := timeStamp, host := host s' @ [MozRequestAnimationFrame]\<rparr>))"

section \<open>Vocabulary of the statements\<close>

text \<open>Running one call after another, an exception ending the run.\<close>

definition and_then :: "error + 'a \<Rightarrow> ('a \<Rightarrow> error + 'b) \<Rightarrow> error + 'b" where
  "and_then m k = (case m of Inl e \<Rightarrow> Inl e | Inr x \<Rightarrow> k x)"

text \<open>An application whose callbacks never call back into the manager.\<close>

definition quiet :: app where
  "quiet = \<lparr>body = (\<lambda>n. []), getDirector = (\<lambda>c. None)\<rparr>"

text \<open>A registration is for the pair \<open>(f, c)\<close>: the test of line 161.\<close>

definition matches :: "jsval \<Rightarrow> jsval \<Rightarrow> reg \<Rightarrow> bool" where
  "matches f c r = (loose_eq (callback r) f \<and> loose_eq (ctx r) c)"

text \<open>A task, and a heap of tasks, without the registrations for a pair.\<close>

definition purge :: "jsval \<Rightarrow> jsval \<Rightarrow> Task \<Rightarrow> Task" where
  "purge f c t = t\<lparr>functionStack_' := filter (\<lambda>r. \<not> matches f c r) (functionStack_' t)\<rparr>"

definition purge_in :: "jsval \<Rightarrow> jsval \<Rightarrow> objref set \<Rightarrow> (nat \<rightharpoonup> Task) \<Rightarrow> (nat \<rightharpoonup> Task)" where
  "purge_in f c R h = (\<lambda>tid. if TaskRef tid \<in> R then map_option (purge f c) (h tid) else h tid)"

text \<open>
  The states the manager can be in. The task stack is not empty and holds tasks only,
  each once; object identities are below \<open>next_id\<close>; the registrations of a function
  stack are different objects; a task that holds a registration is on the task stack.
\<close>

definition wf_Task :: "nat \<Rightarrow> Task \<Rightarrow> bool" where
  "wf_Task n t =
     (distinct (map rid (functionStack_' t)) \<and> (\<forall>r\<in>set (functionStack_' t). rid r < n))"

definition well_formed :: "scheduleManager \<Rightarrow> bool" where
  "well_formed s =
     (taskStack_' s \<noteq> [] \<and> distinct (taskStack_' s) \<and>
      (\<forall>r\<in>set (taskStack_' s). \<exists>tid. r = TaskRef tid \<and> heap s tid \<noteq> None) \<and>
      (\<forall>tid t. heap s tid = Some t \<longrightarrow>
         tid < next_id s \<and> wf_Task (next_id s) t \<and>
         (functionStack_' t \<noteq> [] \<longrightarrow> TaskRef tid \<in> set (taskStack_' s))))"

text \<open>
  The manager without the registrations for a pair, and the test of lines 171 and 172:
  the default task is alone on the task stack and holds no registration.
\<close>

definition purged :: "jsval \<Rightarrow> jsval \<Rightarrow> scheduleManager \<Rightarrow> scheduleManager" where
  "purged f c s = s\<lparr>heap := map_option (purge f c) \<circ> heap s\<rparr>"

definition idle :: "scheduleManager \<Rightarrow> bool" where
  "idle s = (length (taskStack_' s) = 1 \<and> get_functionStack_' s (taskStack_' s ! 0) = Some [])"

text \<open>
  A registration belongs to the group of a director: its context has a
  \<^verbatim>\<open>getDirector\<close> method, which returns the director (lines 294 to 296). A task and the
  manager with the activity of a group set.
\<close>

definition in_group :: "(jsval \<Rightarrow> jsval option) \<Rightarrow> jsval \<Rightarrow> reg \<Rightarrow> bool" where
  "in_group G director r = (case G (ctx r) of Some d \<Rightarrow> loose_eq d director | None \<Rightarrow> False)"

definition set_activity :: "(jsval \<Rightarrow> jsval option) \<Rightarrow> jsval \<Rightarrow> bool \<Rightarrow> reg \<Rightarrow> reg" where
  "set_activity G director v r = (if in_group G director r then r\<lparr>active := v\<rparr> else r)"

definition regroup :: "(jsval \<Rightarrow> jsval option) \<Rightarrow> jsval \<Rightarrow> bool \<Rightarrow> Task \<Rightarrow> Task" where
  "regroup G director v t =
     t\<lparr>functionStack_' := map (set_activity G director v) (functionStack_' t)\<rparr>"

definition regroup_in ::
  "(jsval \<Rightarrow> jsval option) \<Rightarrow> jsval \<Rightarrow> bool \<Rightarrow> objref set \<Rightarrow> (nat \<rightharpoonup> Task) \<Rightarrow> (nat \<rightharpoonup> Task)" where
  "regroup_in G director v R h =
     (\<lambda>tid. if TaskRef tid \<in> R then map_option (regroup G director v) (h tid) else h tid)"

definition regrouped ::
  "(jsval \<Rightarrow> jsval option) \<Rightarrow> jsval \<Rightarrow> bool \<Rightarrow> scheduleManager \<Rightarrow> scheduleManager" where
  "regrouped G director v s = s\<lparr>heap := map_option (regroup G director v) \<circ> heap s\<rparr>"

text \<open>Every registered context is an object: neither \<^verbatim>\<open>undefined\<close> nor \<^verbatim>\<open>null\<close>.\<close>

definition object_contexts :: "scheduleManager \<Rightarrow> bool" where
  "object_contexts s =
     (\<forall>tid t. heap s tid = Some t \<longrightarrow>
        (\<forall>r\<in>set (functionStack_' t). ctx r \<noteq> Undefined \<and> ctx r \<noteq> Null))"

text \<open>The manager after a registration for \<open>(f, c)\<close> was added to the task \<open>tid\<close>, which held \<open>t\<close>.\<close>

definition scheduled ::
  "jsval \<Rightarrow> jsval \<Rightarrow> nat \<Rightarrow> Task \<Rightarrow> scheduleManager \<Rightarrow> scheduleManager" where
  "scheduled f c tid t s =
     (let s2 = s\<lparr>heap := (heap s)(tid \<mapsto> t\<lparr>functionStack_' := functionStack_' t @
                  [\<lparr>rid = next_id s, active = True, callback = f, ctx = c\<rparr>]\<rparr>),
                next_id := Suc (next_id s),
                taskStack_' := (if TaskRef tid \<in> set (taskStack_' s) then taskStack_' s
                                else taskStack_' s @ [TaskRef tid])\<rparr>
      in if active_' s then s2 else activate_' s2)"

text \<open>
  The registrations of a task that a firing invokes, in the order of invocation: from
  the last registered to the first, those whose slot 0 is true and whose callback is a
  function (line 83).
\<close>

definition fired :: "Task \<Rightarrow> reg list" where
  "fired t = filter (\<lambda>r. active r \<and> goog_isFunction (callback r)) (rev (functionStack_' t))"


definition invoked :: "nat \<Rightarrow> scheduleManager \<Rightarrow> int list" where
  "invoked i s = map snd (filter (\<lambda>e. rid (fst e) = i) (calls s))"

text \<open>
  No registered callback calls back into the manager; no registration is for the pair
  \<open>(f, c)\<close>.
\<close>

definition quiet_manager :: "app \<Rightarrow> scheduleManager \<Rightarrow> bool" where
  "quiet_manager A s =
     (\<forall>tid t. heap s tid = Some t \<longrightarrow>
        (\<forall>r\<in>set (functionStack_' t). \<forall>n. callback r = Fn n \<longrightarrow> body A n = []))"


text \<open>
  The life of a task \<open>me\<close> of limit 1 that holds the single registration \<open>r\<close>, among
  quiet registrations for other pairs: it counts down from \<open>acc\<close>, then it has fired
  and is empty.
\<close>

datatype phase = Pending int | Finished



fun in_phase :: "int \<Rightarrow> reg \<Rightarrow> phase \<Rightarrow> Task \<Rightarrow> bool" where
  "in_phase d r (Pending acc) t =
     (t = \<lparr>delta = acc, maxdelta = d, limit = 1, functionStack_' = [r]\<rparr>)"
| "in_phase d r Finished t = (functionStack_' t = [])"

definition one_shot :: "app \<Rightarrow> nat \<Rightarrow> reg \<Rightarrow> int \<Rightarrow> phase \<Rightarrow> scheduleManager \<Rightarrow> bool" where
  "one_shot A me r d ph s =
     (well_formed s \<and> TaskRef me \<in> set (taskStack_' s) \<and>
      active r \<and> (\<exists>n. callback r = Fn n \<and> body A n = []) \<and>
      (\<exists>t. heap s me = Some t \<and> in_phase d r ph t) \<and>
      (\<forall>tid t. heap s tid = Some t \<longrightarrow> tid \<noteq> me \<longrightarrow>
         (\<forall>r0\<in>set (functionStack_' t).
            (\<forall>m. callback r0 = Fn m \<longrightarrow> body A m = []) \<and>
            \<not> matches (callback r) (ctx r) r0 \<and> rid r0 \<noteq> rid r)))"

text \<open>
  The manager \<open>s\<close> seen with the group of a director paused since the moment it had
  made \<open>k\<close> invocations: the registrations of the group are inactive, and the
  invocations of registrations of the group made after the first \<open>k\<close> are left out.
\<close>

definition muted ::
  "(jsval \<Rightarrow> jsval option) \<Rightarrow> jsval \<Rightarrow> nat \<Rightarrow> scheduleManager \<Rightarrow> scheduleManager" where
  "muted G director k s =
     (regrouped G director False s)
       \<lparr>calls := take k (calls s) @
                 filter (\<lambda>e. \<not> in_group G director (fst e)) (drop k (calls s))\<rparr>"

text \<open>
  Every task has a delay that is not negative and an accumulator that does not exceed
  it, as a task has when it is made with such a delay.
\<close>

definition in_cadence :: "scheduleManager \<Rightarrow> bool" where
  "in_cadence s = (\<forall>tid t. heap s tid = Some t \<longrightarrow> 0 \<le> maxdelta t \<and> delta t \<le> maxdelta t)"

text \<open>The invocations made since the manager had made \<open>k\<close> of them.\<close>

definition calls_since :: "nat \<Rightarrow> scheduleManager \<Rightarrow> (reg \<times> int) list" where
  "calls_since k s = drop k (calls s)"

section \<open>Evaluation\<close>

lemmas manager_defs =
  and_then_def schedule_def unschedule_def scheduleWithDelay_def callAfter_def
  alloc_Task_def Task_new_def init_def activate_'_def disable_'_def goog_array_insert_def
  getDisplayRate_def step_'_def step_limit_def dispatch_'_def stepTimer_'_def
  stepTimer_delta_def changeDirectorActivity_def setDisplayRate_def quiet_def Let_def

section \<open>Removing registrations\<close>

lemma goog_array_remove_absent:
  "ident obj \<notin> ident ` set arr \<Longrightarrow> goog_array_remove ident arr obj = arr"
  by (induction arr) auto

lemma goog_array_remove_nth:
  "distinct (map ident arr) \<Longrightarrow> i < length arr \<Longrightarrow>
   goog_array_remove ident arr (arr ! i) = take i arr @ drop (Suc i) arr"
proof (induction arr arbitrary: i)
  case Nil
  then show ?case by simp
next
  case (Cons x arr)
  show ?case
  proof (cases i)
    case 0
    then show ?thesis by simp
  next
    case (Suc k)
    with Cons.prems have "ident x \<noteq> ident (arr ! k)" by force
    with Cons Suc show ?thesis by simp
  qed
qed

lemma distinct_remove_nth:
  assumes "distinct (map g xs)"
  shows "distinct (map g (take i xs @ drop (Suc i) xs))"
proof -
  let ?ys = "map g xs"
  have "set (take i ?ys) \<inter> set (drop (Suc i) ?ys) = {}"
    using assms by (intro set_take_disj_set_drop_if_distinct) simp_all
  moreover have "distinct (take i ?ys)" "distinct (drop (Suc i) ?ys)"
    using assms by simp_all
  ultimately have "distinct (take i ?ys @ drop (Suc i) ?ys)"
    by simp
  then show ?thesis
    by (simp add: take_map drop_map)
qed

lemma goog_array_contains_iff:
  "goog_array_contains ident arr obj \<longleftrightarrow> ident obj \<in> ident ` set arr"
  by (induction arr) auto

lemma unschedule_inner_filter:
  "i \<le> length fs \<Longrightarrow> distinct (map rid fs) \<Longrightarrow>
   unschedule_inner f c i fs = Inr (filter (\<lambda>r. \<not> matches f c r) (take i fs) @ drop i fs)"
proof (induction i arbitrary: fs)
  case 0
  then show ?case by simp
next
  case (Suc i)
  then have i: "i < length fs" by simp
  have step: "unschedule_inner f c (Suc i) fs =
      (if matches f c (fs ! i) then unschedule_inner f c i (goog_array_remove rid fs (fs ! i))
       else unschedule_inner f c i fs)"
    using i by (simp add: matches_def Let_def)
  show ?case
  proof (cases "matches f c (fs ! i)")
    case True
    let ?fs = "take i fs @ drop (Suc i) fs"
    have rm: "goog_array_remove rid fs (fs ! i) = ?fs"
      using Suc.prems i by (simp add: goog_array_remove_nth)
    have d: "distinct (map rid ?fs)"
      using Suc.prems(2) by (rule distinct_remove_nth)
    have "unschedule_inner f c i ?fs = Inr (filter (\<lambda>r. \<not> matches f c r) (take i ?fs) @ drop i ?fs)"
      using i d by (intro Suc.IH) simp
    with True i rm step show ?thesis
      by (simp add: take_Suc_conv_app_nth min_def)
  next
    case False
    have "unschedule_inner f c i fs = Inr (filter (\<lambda>r. \<not> matches f c r) (take i fs) @ drop i fs)"
      using i Suc.prems by (intro Suc.IH) simp_all
    with False i step show ?thesis
      by (simp add: take_Suc_conv_app_nth Cons_nth_drop_Suc)
  qed
qed

lemma unschedule_inner_all:
  "distinct (map rid fs) \<Longrightarrow>
   unschedule_inner f c (length fs) fs = Inr (filter (\<lambda>r. \<not> matches f c r) fs)"
  by (simp add: unschedule_inner_filter)

lemma purge_idem [simp]: "purge f c (purge f c t) = purge f c t"
  by (simp add: purge_def)

lemma unschedule_outer_purge:
  assumes "\<forall>r\<in>set (taskStack_' s). \<exists>tid. r = TaskRef tid \<and> heap s tid \<noteq> None"
    and "\<forall>tid t. heap s tid = Some t \<longrightarrow> distinct (map rid (functionStack_' t))"
    and "j \<le> length (taskStack_' s)"
  shows "unschedule_outer f c j s =
         Inr (s\<lparr>heap := purge_in f c (set (take j (taskStack_' s))) (heap s)\<rparr>)"
  using assms
proof (induction j arbitrary: s)
  case 0
  then show ?case by (simp add: purge_in_def)
next
  case (Suc j)
  then have j: "j < length (taskStack_' s)" by simp
  then obtain tid t where ref: "taskStack_' s ! j = TaskRef tid" and t: "heap s tid = Some t"
    using Suc.prems(1) by (metis nth_mem not_Some_eq)
  have dt: "distinct (map rid (functionStack_' t))"
    using Suc.prems(2) t by blast
  let ?s1 = "s\<lparr>heap := (heap s)(tid \<mapsto> purge f c t)\<rparr>"
  have noarr: "id (ArrayRef tid) \<notin> id ` set (taskStack_' s)"
    using Suc.prems(1) by auto
  have step: "unschedule_outer f c (Suc j) s = unschedule_outer f c j ?s1"
    using j ref t dt noarr
    by (simp add: unschedule_inner_all goog_array_remove_absent purge_def Let_def)
  have ih: "unschedule_outer f c j ?s1 =
        Inr (?s1\<lparr>heap := purge_in f c (set (take j (taskStack_' ?s1))) (heap ?s1)\<rparr>)"
  proof (rule Suc.IH)
    show "\<forall>r\<in>set (taskStack_' ?s1). \<exists>tid. r = TaskRef tid \<and> heap ?s1 tid \<noteq> None"
      using Suc.prems(1) by force
    show "\<forall>tid t. heap ?s1 tid = Some t \<longrightarrow> distinct (map rid (functionStack_' t))"
      using Suc.prems(2) dt by (auto simp: purge_def distinct_map_filter)
    show "j \<le> length (taskStack_' ?s1)" using j by simp
  qed
  have "purge_in f c (set (take j (taskStack_' s))) ((heap s)(tid \<mapsto> purge f c t)) =
        purge_in f c (set (take (Suc j) (taskStack_' s))) (heap s)"
    using j ref t by (auto simp: purge_in_def take_Suc_conv_app_nth fun_eq_iff)
  with step ih show ?case by simp
qed

lemma wf_refs: "well_formed s \<Longrightarrow> \<forall>r\<in>set (taskStack_' s). \<exists>tid. r = TaskRef tid \<and> heap s tid \<noteq> None"
  by (simp add: well_formed_def)

lemma wf_distinct: "well_formed s \<Longrightarrow> \<forall>tid t. heap s tid = Some t \<longrightarrow> distinct (map rid (functionStack_' t))"
  by (auto simp: well_formed_def wf_Task_def)

lemma purge_in_all:
  assumes "well_formed s"
  shows "purge_in f c (set (taskStack_' s)) (heap s) = map_option (purge f c) \<circ> heap s"
proof
  fix tid
  show "purge_in f c (set (taskStack_' s)) (heap s) tid = (map_option (purge f c) \<circ> heap s) tid"
  proof (cases "heap s tid")
    case None
    then show ?thesis by (simp add: purge_in_def)
  next
    case (Some t)
    with assms have "functionStack_' t \<noteq> [] \<longrightarrow> TaskRef tid \<in> set (taskStack_' s)"
      by (simp add: well_formed_def)
    then have "TaskRef tid \<notin> set (taskStack_' s) \<Longrightarrow> purge f c t = t"
      by (auto simp: purge_def)
    with Some show ?thesis by (auto simp: purge_in_def)
  qed
qed

lemma unschedule_outer_wf:
  assumes "well_formed s"
  shows "unschedule_outer f c (length (taskStack_' s)) s = Inr (purged f c s)"
  using unschedule_outer_purge [OF wf_refs [OF assms] wf_distinct [OF assms] order_refl, of f c]
  by (simp add: purge_in_all [OF assms] purged_def)

lemma filter_not_Nil: "filter P xs \<noteq> [] \<Longrightarrow> xs \<noteq> []"
  by auto

lemma wf_purged: "well_formed s \<Longrightarrow> well_formed (purged f c s)"
  by (auto simp: well_formed_def purged_def purge_def wf_Task_def distinct_map_filter
      dest!: filter_not_Nil)

lemma wf_disable: "well_formed s \<Longrightarrow> well_formed (disable_' s)"
  by (auto simp: well_formed_def disable_'_def Let_def)

lemma wf_activate: "well_formed s \<Longrightarrow> well_formed (activate_' s)"
  by (auto simp: well_formed_def activate_'_def Let_def)

lemma wf_head: "well_formed s \<Longrightarrow> \<exists>tid t. taskStack_' s ! 0 = TaskRef tid \<and> heap s tid = Some t"
  by (cases "taskStack_' s") (auto simp: well_formed_def)

lemma unschedule_wf:
  assumes "well_formed s"
  shows "unschedule f c s =
         Inr (if idle (purged f c s) then disable_' (purged f c s) else purged f c s)"
proof -
  obtain tid t where "taskStack_' s ! 0 = TaskRef tid" "heap s tid = Some t"
    using wf_head [OF assms] by blast
  then show ?thesis
    using assms by (auto simp: unschedule_def unschedule_outer_wf idle_def purged_def)
qed

lemma wf_unschedule: "well_formed s \<Longrightarrow> unschedule f c s = Inr s' \<Longrightarrow> well_formed s'"
  by (auto simp: unschedule_wf wf_purged wf_disable split: if_splits)

section \<open>Adding registrations\<close>

lemma goog_array_insert_fresh:
  "ident obj \<notin> ident ` set arr \<Longrightarrow> goog_array_insert ident arr obj = arr @ [obj]"
  by (simp add: goog_array_insert_def goog_array_contains_iff)

lemma goog_array_insert_id:
  "goog_array_insert id arr obj = (if obj \<in> set arr then arr else arr @ [obj])"
  by (simp add: goog_array_insert_def goog_array_contains_iff)

lemma wf_Task_mono: "wf_Task n t \<Longrightarrow> n \<le> m \<Longrightarrow> wf_Task m t"
  by (auto simp: wf_Task_def)

lemma well_formedI:
  assumes "taskStack_' s \<noteq> []"
    and "distinct (taskStack_' s)"
    and "\<And>r. r \<in> set (taskStack_' s) \<Longrightarrow> \<exists>tid. r = TaskRef tid \<and> heap s tid \<noteq> None"
    and "\<And>tid t. heap s tid = Some t \<Longrightarrow> tid < next_id s"
    and "\<And>tid t. heap s tid = Some t \<Longrightarrow> wf_Task (next_id s) t"
    and "\<And>tid t. heap s tid = Some t \<Longrightarrow> functionStack_' t \<noteq> [] \<Longrightarrow>
           TaskRef tid \<in> set (taskStack_' s)"
  shows "well_formed s"
  using assms unfolding well_formed_def by blast

lemma wf_ref: "well_formed s \<Longrightarrow> r \<in> set (taskStack_' s) \<Longrightarrow> \<exists>tid. r = TaskRef tid \<and> heap s tid \<noteq> None"
  by (simp add: well_formed_def)

lemma wf_lt: "well_formed s \<Longrightarrow> heap s tid = Some t \<Longrightarrow> tid < next_id s"
  by (simp add: well_formed_def)

lemma wf_task: "well_formed s \<Longrightarrow> heap s tid = Some t \<Longrightarrow> wf_Task (next_id s) t"
  by (simp add: well_formed_def)

lemma wf_on_stack:
  "well_formed s \<Longrightarrow> heap s tid = Some t \<Longrightarrow> functionStack_' t \<noteq> [] \<Longrightarrow>
   TaskRef tid \<in> set (taskStack_' s)"
  by (simp add: well_formed_def)

lemma wf_nonempty: "well_formed s \<Longrightarrow> taskStack_' s \<noteq> []"
  by (simp add: well_formed_def)

lemma wf_distinct_stack: "well_formed s \<Longrightarrow> distinct (taskStack_' s)"
  by (simp add: well_formed_def)

lemma wf_alloc_Task:
  assumes "well_formed s" and "alloc_Task md ol s = (task, s')"
  shows "well_formed s'"
proof -
  have s': "s' = s\<lparr>heap := (heap s)(next_id s \<mapsto> Task_new md ol), next_id := Suc (next_id s)\<rparr>"
    using assms(2) by (auto simp: alloc_Task_def)
  show ?thesis
  proof (rule well_formedI)
    show "taskStack_' s' \<noteq> []" using assms(1) by (simp add: s' wf_nonempty)
  next
    show "distinct (taskStack_' s')" using assms(1) by (simp add: s' wf_distinct_stack)
  next
    fix r assume "r \<in> set (taskStack_' s')"
    then have "r \<in> set (taskStack_' s)" by (simp add: s')
    then obtain tid where "r = TaskRef tid" "heap s tid \<noteq> None"
      using wf_ref [OF assms(1)] by blast
    then show "\<exists>tid. r = TaskRef tid \<and> heap s' tid \<noteq> None"
      by (auto simp: s')
  next
    fix tid t assume "heap s' tid = Some t"
    then show "tid < next_id s'"
      using wf_lt [OF assms(1)] by (auto simp: s' less_Suc_eq split: if_splits)
  next
    fix tid t assume "heap s' tid = Some t"
    then show "wf_Task (next_id s') t"
      using wf_task [OF assms(1)]
      by (auto simp: s' Task_new_def wf_Task_def less_Suc_eq split: if_splits)
  next
    fix tid t assume "heap s' tid = Some t" "functionStack_' t \<noteq> []"
    then show "TaskRef tid \<in> set (taskStack_' s')"
      using wf_on_stack [OF assms(1)]
      by (auto simp: s' Task_new_def split: if_splits)
  qed
qed

lemma alloc_Task_heap:
  "alloc_Task md ol s = (task, s') \<Longrightarrow> task = next_id s \<and> heap s' task = Some (Task_new md ol)"
  by (auto simp: alloc_Task_def)

lemma schedule_Some_wf:
  assumes "well_formed s" and "heap s tid = Some t"
  shows "schedule f c (Some tid) s = Inr (scheduled f c tid t s)"
proof -
  have "wf_Task (next_id s) t" using assms by (simp add: well_formed_def)
  then have "next_id s \<notin> rid ` set (functionStack_' t)"
    by (auto simp: wf_Task_def)
  then show ?thesis
    using assms(2)
    by (simp add: schedule_def scheduled_def goog_array_insert_fresh goog_array_insert_id Let_def)
qed

lemma schedule_None_wf:
  assumes "well_formed s" and "taskStack_' s ! 0 = TaskRef tid"
  shows "schedule f c None s = schedule f c (Some tid) s"
  using assms by (cases "taskStack_' s") (auto simp: schedule_def well_formed_def)

lemma wf_scheduled:
  assumes "well_formed s" and t: "heap s tid = Some t"
  shows "well_formed (scheduled f c tid t s)"
proof -
  let ?r = "\<lparr>rid = next_id s, active = True, callback = f, ctx = c\<rparr>"
  let ?s2 = "s\<lparr>heap := (heap s)(tid \<mapsto> t\<lparr>functionStack_' := functionStack_' t @ [?r]\<rparr>),
                next_id := Suc (next_id s),
                taskStack_' := (if TaskRef tid \<in> set (taskStack_' s) then taskStack_' s
                                else taskStack_' s @ [TaskRef tid])\<rparr>"
  have "well_formed ?s2"
  proof (rule well_formedI)
    show "taskStack_' ?s2 \<noteq> []" using assms(1) by (simp add: wf_nonempty)
  next
    show "distinct (taskStack_' ?s2)" using assms(1) by (simp add: wf_distinct_stack)
  next
    fix r assume "r \<in> set (taskStack_' ?s2)"
    then have "r = TaskRef tid \<or> r \<in> set (taskStack_' s)"
      by (auto split: if_splits)
    then show "\<exists>tid'. r = TaskRef tid' \<and> heap ?s2 tid' \<noteq> None"
    proof
      assume "r = TaskRef tid" then show ?thesis by simp
    next
      assume "r \<in> set (taskStack_' s)"
      then obtain tid' where "r = TaskRef tid'" "heap s tid' \<noteq> None"
        using wf_ref [OF assms(1)] by blast
      then show ?thesis by auto
    qed
  next
    fix tid' t' assume "heap ?s2 tid' = Some t'"
    then show "tid' < next_id ?s2"
      using wf_lt [OF assms(1)] t by (auto simp: less_Suc_eq split: if_splits)
  next
    fix tid' t' assume h: "heap ?s2 tid' = Some t'"
    show "wf_Task (next_id ?s2) t'"
    proof (cases "tid' = tid")
      case True
      have "wf_Task (next_id s) t" using assms by (rule wf_task)
      then have "wf_Task (Suc (next_id s)) (t\<lparr>functionStack_' := functionStack_' t @ [?r]\<rparr>)"
        by (fastforce simp: wf_Task_def less_Suc_eq)
      with True h show ?thesis by simp
    next
      case False
      with h have "heap s tid' = Some t'" by simp
      then have "wf_Task (next_id s) t'" using assms(1) by (simp add: wf_task)
      then show ?thesis by (simp add: wf_Task_mono)
    qed
  next
    fix tid' t' assume "heap ?s2 tid' = Some t'" "functionStack_' t' \<noteq> []"
    then show "TaskRef tid' \<in> set (taskStack_' ?s2)"
      using wf_on_stack [OF assms(1)] by (auto split: if_splits)
  qed
  then show ?thesis
    by (auto simp: scheduled_def Let_def wf_activate)
qed

lemma wf_schedule:
  assumes "well_formed s" and "schedule f c opt_task s = Inr s'"
  shows "well_formed s'"
proof -
  obtain tid0 t0 where h: "taskStack_' s ! 0 = TaskRef tid0" "heap s tid0 = Some t0"
    using wf_head [OF assms(1)] by blast
  show ?thesis
  proof (cases opt_task)
    case None
    with assms h have "s' = scheduled f c tid0 t0 s"
      by (simp add: schedule_None_wf schedule_Some_wf)
    with assms(1) h show ?thesis
      by (simp add: wf_scheduled)
  next
    case (Some tid)
    show ?thesis
    proof (cases "heap s tid")
      case None
      with Some assms show ?thesis by (simp add: schedule_def)
    next
      case (Some t)
      with \<open>opt_task = Some tid\<close> assms have "s' = scheduled f c tid t s"
        by (simp add: schedule_Some_wf)
      with assms(1) Some show ?thesis
        by (simp add: wf_scheduled)
    qed
  qed
qed

lemma wf_scheduleWithDelay:
  "well_formed s \<Longrightarrow> scheduleWithDelay f c d ol s = Inr s' \<Longrightarrow> well_formed s'"
  by (auto simp: scheduleWithDelay_def split: prod.splits dest: wf_alloc_Task wf_schedule)

lemma wf_callAfter:
  "well_formed s \<Longrightarrow> callAfter f c d s = Inr s' \<Longrightarrow> well_formed s'"
  by (auto simp: callAfter_def dest: wf_scheduleWithDelay)

section \<open>Changing the activity of a group\<close>

lemma set_activity_fields [simp]:
  "rid (set_activity G d v r) = rid r"
  "callback (set_activity G d v r) = callback r"
  "ctx (set_activity G d v r) = ctx r"
  by (simp_all add: set_activity_def)

lemma changeDirectorActivity_inner_map:
  "i \<le> length fs \<Longrightarrow> \<forall>r\<in>set fs. ctx r \<noteq> Undefined \<and> ctx r \<noteq> Null \<Longrightarrow>
   changeDirectorActivity_inner G d v i fs =
   Inr (map (set_activity G d v) (take i fs) @ drop i fs)"
proof (induction i arbitrary: fs)
  case 0
  then show ?case by simp
next
  case (Suc i)
  then have i: "i < length fs" by simp
  then have c: "ctx (fs ! i) \<noteq> Undefined" "ctx (fs ! i) \<noteq> Null"
    using Suc.prems(2) by auto
  let ?fs = "fs[i := set_activity G d v (fs ! i)]"
  have step: "changeDirectorActivity_inner G d v (Suc i) fs = changeDirectorActivity_inner G d v i ?fs"
    using i c by (auto simp: set_activity_def in_group_def Let_def split: option.splits)
  have "\<forall>r\<in>set ?fs. ctx r \<noteq> Undefined \<and> ctx r \<noteq> Null"
  proof
    fix r assume "r \<in> set ?fs"
    then have "r = set_activity G d v (fs ! i) \<or> r \<in> set fs"
      using set_update_subset_insert [of fs i] by auto
    then show "ctx r \<noteq> Undefined \<and> ctx r \<noteq> Null"
      using c Suc.prems(2) by auto
  qed
  then have "changeDirectorActivity_inner G d v i ?fs =
      Inr (map (set_activity G d v) (take i ?fs) @ drop i ?fs)"
    using i by (intro Suc.IH) simp_all
  with step i show ?case
    by (simp add: take_Suc_conv_app_nth drop_update_swap Cons_nth_drop_Suc [symmetric] del: drop_update_swap)
qed

lemma in_group_set_activity [simp]:
  "in_group G d (set_activity G' d' v r) = in_group G d r"
  by (simp add: in_group_def)

lemma set_activity_idem [simp]:
  "set_activity G d v (set_activity G d v r) = set_activity G d v r"
  by (simp add: set_activity_def)

lemma regroup_idem [simp]: "regroup G d v (regroup G d v t) = regroup G d v t"
  by (simp add: regroup_def)

lemma changeDirectorActivity_outer_regroup:
  assumes "\<forall>r\<in>set (taskStack_' s). \<exists>tid. r = TaskRef tid \<and> heap s tid \<noteq> None"
    and "object_contexts s"
    and "j \<le> length (taskStack_' s)"
  shows "changeDirectorActivity_outer G d v j s =
         Inr (s\<lparr>heap := regroup_in G d v (set (take j (taskStack_' s))) (heap s)\<rparr>)"
  using assms
proof (induction j arbitrary: s)
  case 0
  then show ?case by (simp add: regroup_in_def)
next
  case (Suc j)
  then have j: "j < length (taskStack_' s)" by simp
  then obtain tid t where ref: "taskStack_' s ! j = TaskRef tid" and t: "heap s tid = Some t"
    using Suc.prems(1) by (metis nth_mem not_Some_eq)
  have ct: "\<forall>r\<in>set (functionStack_' t). ctx r \<noteq> Undefined \<and> ctx r \<noteq> Null"
    using Suc.prems(2) t unfolding object_contexts_def by blast
  let ?s1 = "s\<lparr>heap := (heap s)(tid \<mapsto> regroup G d v t)\<rparr>"
  have step: "changeDirectorActivity_outer G d v (Suc j) s = changeDirectorActivity_outer G d v j ?s1"
    using j ref t ct by (simp add: changeDirectorActivity_inner_map regroup_def)
  have ih: "changeDirectorActivity_outer G d v j ?s1 =
        Inr (?s1\<lparr>heap := regroup_in G d v (set (take j (taskStack_' ?s1))) (heap ?s1)\<rparr>)"
  proof (rule Suc.IH)
    show "\<forall>r\<in>set (taskStack_' ?s1). \<exists>tid. r = TaskRef tid \<and> heap ?s1 tid \<noteq> None"
      using Suc.prems(1) by force
    show "object_contexts ?s1"
      using Suc.prems(2) ct unfolding object_contexts_def
      by (auto simp: regroup_def split: if_splits)
    show "j \<le> length (taskStack_' ?s1)" using j by simp
  qed
  have "regroup_in G d v (set (take j (taskStack_' s))) ((heap s)(tid \<mapsto> regroup G d v t)) =
        regroup_in G d v (set (take (Suc j) (taskStack_' s))) (heap s)"
    using j ref t by (auto simp: regroup_in_def take_Suc_conv_app_nth fun_eq_iff)
  with step ih show ?case by simp
qed

lemma regroup_in_all:
  assumes "well_formed s"
  shows "regroup_in G d v (set (taskStack_' s)) (heap s) = map_option (regroup G d v) \<circ> heap s"
proof
  fix tid
  show "regroup_in G d v (set (taskStack_' s)) (heap s) tid = (map_option (regroup G d v) \<circ> heap s) tid"
  proof (cases "heap s tid")
    case None
    then show ?thesis by (simp add: regroup_in_def)
  next
    case (Some t)
    with assms have "functionStack_' t \<noteq> [] \<longrightarrow> TaskRef tid \<in> set (taskStack_' s)"
      by (simp add: well_formed_def)
    then have "TaskRef tid \<notin> set (taskStack_' s) \<Longrightarrow> regroup G d v t = t"
      by (auto simp: regroup_def)
    with Some show ?thesis by (auto simp: regroup_in_def)
  qed
qed

lemma changeDirectorActivity_wf:
  assumes "well_formed s" and "object_contexts s"
  shows "changeDirectorActivity G d v s = Inr (regrouped G d v s)"
  using changeDirectorActivity_outer_regroup [OF wf_refs [OF assms(1)] assms(2) order_refl, of G d v]
  by (simp add: changeDirectorActivity_def regroup_in_all [OF assms(1)] regrouped_def)

text \<open>
  A registered context that is \<^verbatim>\<open>undefined\<close> makes \<^verbatim>\<open>changeDirectorActivity\<close> throw at
  line 294, whatever the director.
\<close>

lemma changeDirectorActivity_undefined_context:
  "and_then (schedule (Fn 1) Undefined None (init False False 0))
     (changeDirectorActivity (\<lambda>c. None) (Obj 9) False) = Inl TypeError"
  by (simp add: manager_defs)

section \<open>The reachable states\<close>

text \<open>
  The manager is well formed when the script has loaded (\<open>wf_init\<close>), and every
  operation that returns leaves it so: \<open>wf_schedule\<close>, \<open>wf_unschedule\<close>,
  \<open>wf_scheduleWithDelay\<close>, \<open>wf_callAfter\<close>, \<open>wf_changeDirectorActivity\<close> and, whatever
  the callbacks do, \<open>wf_dispatch\<close>.
\<close>

lemma wf_cong:
  "taskStack_' s' = taskStack_' s \<Longrightarrow> heap s' = heap s \<Longrightarrow> next_id s' = next_id s \<Longrightarrow>
   well_formed s' = well_formed s"
  by (simp add: well_formed_def)

lemma wf_Task_rids:
  "map rid (functionStack_' t') = map rid (functionStack_' t) \<Longrightarrow> wf_Task n t' = wf_Task n t"
proof -
  assume a: "map rid (functionStack_' t') = map rid (functionStack_' t)"
  have "(\<forall>r\<in>set (functionStack_' t'). rid r < n) = (\<forall>x\<in>set (map rid (functionStack_' t')). x < n)"
    by simp
  also have "\<dots> = (\<forall>x\<in>set (map rid (functionStack_' t)). x < n)"
    by (simp only: a)
  also have "\<dots> = (\<forall>r\<in>set (functionStack_' t). rid r < n)"
    by simp
  finally show ?thesis
    by (simp add: wf_Task_def a)
qed

lemma wf_update_Task:
  assumes "well_formed s" and t: "heap s tid = Some t"
    and r: "map rid (functionStack_' t') = map rid (functionStack_' t)"
  shows "well_formed (s\<lparr>heap := (heap s)(tid \<mapsto> t')\<rparr>)"
proof (rule well_formedI)
  let ?s = "s\<lparr>heap := (heap s)(tid \<mapsto> t')\<rparr>"
  show "taskStack_' ?s \<noteq> []" using assms(1) by (simp add: wf_nonempty)
  show "distinct (taskStack_' ?s)" using assms(1) by (simp add: wf_distinct_stack)
  show "\<exists>tid'. r = TaskRef tid' \<and> heap ?s tid' \<noteq> None" if "r \<in> set (taskStack_' ?s)" for r
  proof -
    from that have "r \<in> set (taskStack_' s)" by simp
    then obtain tid' where "r = TaskRef tid'" "heap s tid' \<noteq> None"
      using wf_ref [OF assms(1)] by blast
    then show ?thesis by auto
  qed
  show "tid' < next_id ?s" if "heap ?s tid' = Some u" for tid' u
    using that wf_lt [OF assms(1)] t by (auto split: if_splits)
  show "wf_Task (next_id ?s) u" if "heap ?s tid' = Some u" for tid' u
    using that wf_task [OF assms(1)] t wf_Task_rids [OF r] by (auto split: if_splits)
  show "TaskRef tid' \<in> set (taskStack_' ?s)"
    if "heap ?s tid' = Some u" "functionStack_' u \<noteq> []" for tid' u
  proof (cases "tid' = tid")
    case True
    with that have "functionStack_' t' \<noteq> []" by simp
    then have "functionStack_' t \<noteq> []" using r by (metis map_is_Nil_conv)
    with True show ?thesis using wf_on_stack [OF assms(1) t] by simp
  next
    case False
    with that show ?thesis using wf_on_stack [OF assms(1)] by simp
  qed
qed

lemma changeDirectorActivity_inner_rids:
  "changeDirectorActivity_inner G d v i fs = Inr fs' \<Longrightarrow> map rid fs' = map rid fs"
proof (induction i arbitrary: fs)
  case 0
  then show ?case by simp
next
  case (Suc i)
  have upd: "map rid (fs[i := (fs ! i)\<lparr>active := v\<rparr>]) = map rid fs"
    by (simp add: map_update) (metis list_update_id map_update)
  from Suc.prems show ?case
    using Suc.IH [of "fs[i := (fs ! i)\<lparr>active := v\<rparr>]"] Suc.IH [of fs] upd
    by (auto simp: Let_def split: if_splits option.splits)
qed

lemma wf_changeDirectorActivity_outer:
  "well_formed s \<Longrightarrow> changeDirectorActivity_outer G d v j s = Inr s' \<Longrightarrow> well_formed s'"
proof (induction j arbitrary: s)
  case 0
  then show ?case by simp
next
  case (Suc j)
  from Suc.prems(2) obtain tid t fs where
    t: "heap s tid = Some t" and
    fs: "changeDirectorActivity_inner G d v (length (functionStack_' t)) (functionStack_' t) = Inr fs" and
    rec: "changeDirectorActivity_outer G d v j (s\<lparr>heap := (heap s)(tid \<mapsto> t\<lparr>functionStack_' := fs\<rparr>)\<rparr>) = Inr s'"
    by (auto split: if_splits objref.splits option.splits sum.splits)
  have "well_formed (s\<lparr>heap := (heap s)(tid \<mapsto> t\<lparr>functionStack_' := fs\<rparr>)\<rparr>)"
    using Suc.prems(1) t changeDirectorActivity_inner_rids [OF fs]
    by (intro wf_update_Task) simp_all
  then show ?case using rec by (rule Suc.IH)
qed

lemma wf_changeDirectorActivity:
  "well_formed s \<Longrightarrow> changeDirectorActivity G d v s = Inr s' \<Longrightarrow> well_formed s'"
  unfolding changeDirectorActivity_def by (rule wf_changeDirectorActivity_outer)

lemma wf_setDisplayRate: "well_formed s \<Longrightarrow> well_formed (setDisplayRate v s)"
proof -
  assume "well_formed s"
  then have "well_formed (s\<lparr>displayRate_' := v\<rparr>)"
    by (simp add: well_formed_def)
  then show ?thesis
    by (simp add: setDisplayRate_def Let_def wf_disable wf_activate)
qed

lemma wf_now [simp]: "well_formed (s\<lparr>now := t\<rparr>) = well_formed s"
  by (simp add: well_formed_def)

lemma wf_run_action:
  "well_formed s \<Longrightarrow> run_action A a s = Inr s' \<Longrightarrow> well_formed s'"
  by (cases a)
    (auto dest: wf_schedule wf_unschedule wf_scheduleWithDelay wf_callAfter
      wf_changeDirectorActivity simp: wf_setDisplayRate)

lemma wf_run_actions:
  "well_formed s \<Longrightarrow> run_actions A as s = Inr s' \<Longrightarrow> well_formed s'"
proof (induction as arbitrary: s)
  case Nil
  then show ?case by simp
next
  case (Cons a as)
  then show ?case
    by (auto split: sum.splits dest: wf_run_action)
qed

lemma wf_calls [simp]: "well_formed (s\<lparr>calls := cs\<rparr>) = well_formed s"
  by (simp add: well_formed_def)

lemma wf_call:
  assumes "well_formed s" and "call A r d s = Inr s'"
  shows "well_formed s'"
proof -
  from assms(2) obtain n where "run_actions A (body A n) (s\<lparr>calls := calls s @ [(r, d)]\<rparr>) = Inr s'"
    by (auto split: jsval.splits)
  moreover have "well_formed (s\<lparr>calls := calls s @ [(r, d)]\<rparr>)"
    using assms(1) by simp
  ultimately show ?thesis
    using wf_run_actions by blast
qed

lemma wf_step_fire:
  "well_formed s \<Longrightarrow> step_fire A this d i f s = Inr (f', s') \<Longrightarrow> well_formed s'"
proof (induction i arbitrary: f s)
  case 0
  then show ?case by simp
next
  case (Suc i)
  from Suc.prems(2) show ?case
    using Suc.IH Suc.prems(1)
    by (auto simp: Let_def split: option.splits if_splits sum.splits dest: wf_call)
qed

lemma wf_step_limit:
  "well_formed s \<Longrightarrow> step_limit this f s = Inr s' \<Longrightarrow> well_formed s'"
proof -
  assume wf: "well_formed s" and st: "step_limit this f s = Inr s'"
  from st obtain t where t: "heap s this = Some t"
    by (auto simp: step_limit_def split: option.splits)
  have w: "well_formed (s\<lparr>heap := (heap s)(this \<mapsto> t\<lparr>limit := limit t - 1\<rparr>)\<rparr>)"
    using wf t by (intro wf_update_Task) simp_all
  from st t w wf show ?thesis
    by (auto simp: step_limit_def Let_def split: if_splits option.splits dest: wf_unschedule)
qed

lemma wf_step:
  "well_formed s \<Longrightarrow> step_' A this dt s = Inr s' \<Longrightarrow> well_formed s'"
proof -
  assume wf: "well_formed s" and st: "step_' A this dt s = Inr s'"
  from st obtain t where t: "heap s this = Some t"
    by (auto simp: step_'_def split: option.splits)
  have w: "well_formed (s\<lparr>heap := (heap s)(this \<mapsto> t\<lparr>delta := x\<rparr>)\<rparr>)" for x
    using wf t by (intro wf_update_Task) simp_all
  from st t wf show ?thesis
    using w
    by (auto simp: step_'_def Let_def split: if_splits sum.splits prod.splits
        dest!: wf_step_fire [rotated] dest: wf_step_limit)
qed

lemma wf_dispatch_loop:
  "well_formed s \<Longrightarrow> dispatch_loop A dt i s = Inr s' \<Longrightarrow> well_formed s'"
proof (induction i arbitrary: s)
  case 0
  then show ?case by simp
next
  case (Suc i)
  from Suc.prems(2) show ?case
    using Suc.IH Suc.prems(1)
    by (auto split: if_splits objref.splits sum.splits dest: wf_step)
qed

lemma wf_dispatch:
  "well_formed s \<Longrightarrow> dispatch_' A dt s = Inr s' \<Longrightarrow> well_formed s'"
  unfolding dispatch_'_def by (rule wf_dispatch_loop)

lemma wf_init: "well_formed (init uaf mz t)"
  by (auto simp: well_formed_def init_def Task_new_def wf_Task_def split: if_splits)

section \<open>Firing callbacks that leave the manager alone\<close>

lemma call_quiet:
  "callback r = Fn n \<Longrightarrow> body A n = [] \<Longrightarrow> call A r d s = Inr (s\<lparr>calls := calls s @ [(r, d)]\<rparr>)"
  by simp

lemma step_fire_quiet:
  assumes "heap s this = Some t"
    and "\<forall>r\<in>set (functionStack_' t). \<forall>n. callback r = Fn n \<longrightarrow> body A n = []"
    and "i \<le> length (functionStack_' t)"
  shows "step_fire A this d i f s =
         Inr (if i = 0 then f else Some (functionStack_' t ! 0),
              s\<lparr>calls := calls s @ map (\<lambda>r. (r, d))
                  (filter (\<lambda>r. active r \<and> goog_isFunction (callback r))
                     (rev (take i (functionStack_' t))))\<rparr>)"
  using assms
proof (induction i arbitrary: f s)
  case 0
  then show ?case by simp
next
  case (Suc i)
  let ?fs = "functionStack_' t"
  let ?r = "?fs ! i"
  from Suc.prems have i: "i < length ?fs" by simp
  then have mem: "?r \<in> set ?fs" by simp
  let ?s' = "s\<lparr>calls := calls s @ [(?r, d)]\<rparr>"
  have ih: "step_fire A this d i f' s' =
         Inr (if i = 0 then f' else Some (?fs ! 0),
              s'\<lparr>calls := calls s' @ map (\<lambda>r. (r, d))
                  (filter (\<lambda>r. active r \<and> goog_isFunction (callback r))
                     (rev (take i ?fs)))\<rparr>)" if "heap s' this = Some t" for f' s'
    using that Suc.prems(2) i by (intro Suc.IH) simp_all
  show ?case
  proof (cases "active ?r \<and> goog_isFunction (callback ?r)")
    case True
    then obtain n where n: "callback ?r = Fn n"
      by (cases "callback ?r") auto
    with Suc.prems(2) mem have "body A n = []" by blast
    with n have c: "call A ?r d s = Inr ?s'" by simp
    have "step_fire A this d (Suc i) f s = step_fire A this d i (Some ?r) ?s'"
      using Suc.prems(1) i True c by (simp add: Let_def del: call.simps)
    also have "\<dots> = Inr (if i = 0 then Some ?r else Some (?fs ! 0),
              ?s'\<lparr>calls := calls ?s' @ map (\<lambda>r. (r, d))
                  (filter (\<lambda>r. active r \<and> goog_isFunction (callback r))
                     (rev (take i ?fs)))\<rparr>)"
      using Suc.prems(1) by (intro ih) simp
    finally show ?thesis
      using True i by (auto simp: take_Suc_conv_app_nth)
  next
    case False
    have "step_fire A this d (Suc i) f s = step_fire A this d i (Some ?r) s"
      using Suc.prems(1) i False by (auto simp: Let_def simp del: call.simps)
    also have "\<dots> = Inr (if i = 0 then Some ?r else Some (?fs ! 0),
              s\<lparr>calls := calls s @ map (\<lambda>r. (r, d))
                  (filter (\<lambda>r. active r \<and> goog_isFunction (callback r))
                     (rev (take i ?fs)))\<rparr>)"
      using Suc.prems(1) by (intro ih) simp
    finally show ?thesis
      using False i by (auto simp: take_Suc_conv_app_nth)
  qed
qed

lemma disable_fields [simp]:
  "heap (disable_' s) = heap s" "calls (disable_' s) = calls s"
  "taskStack_' (disable_' s) = taskStack_' s" "next_id (disable_' s) = next_id s"
  "now (disable_' s) = now s"
  by (simp_all add: disable_'_def Let_def)

lemma activate_fields [simp]:
  "heap (activate_' s) = heap s" "calls (activate_' s) = calls s"
  "taskStack_' (activate_' s) = taskStack_' s" "next_id (activate_' s) = next_id s"
  "now (activate_' s) = now s"
  by (simp_all add: activate_'_def Let_def)

lemma purge_fields [simp]:
  "delta (purge f c t) = delta t" "maxdelta (purge f c t) = maxdelta t"
  "limit (purge f c t) = limit t"
  "functionStack_' (purge f c t) = filter (\<lambda>r. \<not> matches f c r) (functionStack_' t)"
  by (simp_all add: purge_def)

lemma purged_fields [simp]:
  "heap (purged f c s) tid = map_option (purge f c) (heap s tid)"
  "calls (purged f c s) = calls s" "taskStack_' (purged f c s) = taskStack_' s"
  "next_id (purged f c s) = next_id s" "now (purged f c s) = now s"
  "active_' (purged f c s) = active_' s"
  by (simp_all add: purged_def)

lemma unschedule_heap:
  assumes "well_formed s" and "unschedule f c s = Inr s'"
  shows "heap s' tid = map_option (purge f c) (heap s tid)"
    and "calls s' = calls s" and "taskStack_' s' = taskStack_' s" and "next_id s' = next_id s"
  using assms by (auto simp: unschedule_wf split: if_splits)

lemma unschedule_frame:
  assumes "well_formed s" and "unschedule f c s = Inr s'"
  shows "map_option delta (heap s' tid) = map_option delta (heap s tid)"
    and "map_option maxdelta (heap s' tid) = map_option maxdelta (heap s tid)"
    and "map_option limit (heap s' tid) = map_option limit (heap s tid)"
  by (cases "heap s tid"; simp add: unschedule_heap(1) [OF assms])+

lemma unschedule_returns: "well_formed s \<Longrightarrow> \<exists>s'. unschedule f c s = Inr s'"
  by (simp add: unschedule_wf)

lemma step_limit_quiet:
  assumes "well_formed s" and "heap s this = Some t"
  shows "\<exists>s'. step_limit this (Some r) s = Inr s' \<and> calls s' = calls s \<and>
              map_option delta (heap s' this) = Some (delta t)"
proof (cases "limit t \<noteq> - 1 \<and> limit t - 1 = 0")
  case True
  let ?s1 = "s\<lparr>heap := (heap s)(this \<mapsto> t\<lparr>limit := limit t - 1\<rparr>)\<rparr>"
  have w: "well_formed ?s1"
    using assms by (intro wf_update_Task) simp_all
  then obtain s' where s': "unschedule (callback r) (ctx r) ?s1 = Inr s'"
    using unschedule_returns by blast
  have "calls s' = calls s" "map_option delta (heap s' this) = Some (delta t)"
    using unschedule_heap(2) [OF w s'] unschedule_frame(1) [OF w s', of this] by simp_all
  moreover have "step_limit this (Some r) s = Inr s'"
    using True assms(2) s' by (simp add: step_limit_def Let_def)
  ultimately show ?thesis by blast
next
  case False
  then show ?thesis
    using assms(2) by (auto simp: step_limit_def Let_def)
qed

text \<open>
  A tick handed to a task that holds registrations, in a well-formed manager, when the
  callbacks of the task do not call back into the manager. A tick below the accumulator
  changes the accumulator only. Any other tick invokes the registrations that are active
  and callable, last registered first, each with \<open>maxdelta + dt - delta\<close>, and leaves
  the accumulator at \<open>max 0 (maxdelta - (dt - delta))\<close>. A task of delay 0 and
  accumulator 0 is given the tick itself and keeps the accumulator 0, if the tick is
  not negative.
\<close>

lemma step_fires_due_task:
  assumes "well_formed s" and "heap s this = Some t" and "functionStack_' t \<noteq> []"
    and "\<forall>r\<in>set (functionStack_' t). \<forall>n. callback r = Fn n \<longrightarrow> body A n = []"
  shows
    "(delta t > dt \<longrightarrow>
        step_' A this dt s = Inr (s\<lparr>heap := (heap s)(this \<mapsto> t\<lparr>delta := delta t - dt\<rparr>)\<rparr>)) \<and>
     (\<not> delta t > dt \<longrightarrow>
        (\<exists>s'. step_' A this dt s = Inr s' \<and>
              calls s' = calls s @ map (\<lambda>r. (r, maxdelta t + dt - delta t)) (fired t) \<and>
              map_option delta (heap s' this) = Some (max 0 (maxdelta t - (dt - delta t))))) \<and>
     (maxdelta t = 0 \<and> delta t = 0 \<and> 0 \<le> dt \<longrightarrow>
        (\<exists>s'. step_' A this dt s = Inr s' \<and>
              calls s' = calls s @ map (\<lambda>r. (r, dt)) (fired t) \<and>
              map_option delta (heap s' this) = Some 0))"
proof -
  have wait: "step_' A this dt s = Inr (s\<lparr>heap := (heap s)(this \<mapsto> t\<lparr>delta := delta t - dt\<rparr>)\<rparr>)"
    if "delta t > dt"
    using that assms(2,3) by (simp add: step_'_def)
  have fire: "\<exists>s'. step_' A this dt s = Inr s' \<and>
              calls s' = calls s @ map (\<lambda>r. (r, maxdelta t + dt - delta t)) (fired t) \<and>
              map_option delta (heap s' this) = Some (max 0 (maxdelta t - (dt - delta t)))"
    if due: "\<not> delta t > dt"
  proof -
    let ?d = "maxdelta t + dt - delta t"
    let ?nd = "maxdelta t - (dt - delta t)"
    let ?t1 = "t\<lparr>delta := (if ?nd < 0 then 0 else ?nd)\<rparr>"
    let ?s1 = "s\<lparr>heap := (heap s)(this \<mapsto> ?t1)\<rparr>"
    let ?s2 = "?s1\<lparr>calls := calls ?s1 @ map (\<lambda>r. (r, ?d))
                  (filter (\<lambda>r. active r \<and> goog_isFunction (callback r))
                     (rev (take (length (functionStack_' ?t1)) (functionStack_' ?t1))))\<rparr>"
    have w1: "well_formed ?s1"
      using assms(1,2) by (intro wf_update_Task) simp_all
    have "step_fire A this ?d (length (functionStack_' ?t1)) None ?s1 =
          Inr (if length (functionStack_' ?t1) = 0 then None else Some (functionStack_' ?t1 ! 0), ?s2)"
      using assms(4) by (intro step_fire_quiet) simp_all
    then have f: "step_fire A this ?d (length (functionStack_' t)) None ?s1 =
          Inr (Some (functionStack_' t ! 0), ?s2)"
      using assms(3) by simp
    have w2: "well_formed ?s2" using w1 by simp
    have h2: "heap ?s2 this = Some ?t1" by simp
    obtain s' where s': "step_limit this (Some (functionStack_' t ! 0)) ?s2 = Inr s'"
      "calls s' = calls ?s2" "map_option delta (heap s' this) = Some (delta ?t1)"
      using step_limit_quiet [OF w2 h2] by blast
    have "step_' A this dt s = Inr s'"
      using assms(2,3) due f s'(1) by (simp add: step_'_def Let_def)
    moreover have "calls s' = calls s @ map (\<lambda>r. (r, ?d)) (fired t)"
      using s'(2) by (simp add: fired_def)
    moreover have "delta ?t1 = max 0 ?nd"
      by (simp add: max_def)
    then have "map_option delta (heap s' this) = Some (max 0 ?nd)"
      using s'(3) by (simp only:)
    ultimately show ?thesis by blast
  qed
  have dflt: "\<exists>s'. step_' A this dt s = Inr s' \<and>
              calls s' = calls s @ map (\<lambda>r. (r, dt)) (fired t) \<and>
              map_option delta (heap s' this) = Some 0"
    if d: "maxdelta t = 0 \<and> delta t = 0 \<and> 0 \<le> dt"
  proof -
    from d have "\<not> delta t > dt" by simp
    from fire [OF this] obtain s' where "step_' A this dt s = Inr s'"
      "calls s' = calls s @ map (\<lambda>r. (r, maxdelta t + dt - delta t)) (fired t)"
      "map_option delta (heap s' this) = Some (max 0 (maxdelta t - (dt - delta t)))"
      by blast
    moreover have "maxdelta t + dt - delta t = dt" "max 0 (maxdelta t - (dt - delta t)) = 0"
      using d by simp_all
    ultimately show ?thesis by auto
  qed
  from wait fire dflt show ?thesis by blast
qed

section \<open>A task that fires once\<close>

lemma loose_eq_refl [simp]: "loose_eq a a"
  by (cases a) simp_all


lemma matches_self [simp]: "matches (callback r) (ctx r) r"
  by (simp add: matches_def)



lemma invoked_calls_append:
  "invoked i (s\<lparr>calls := calls s @ cs\<rparr>) = invoked i s @ map snd (filter (\<lambda>e. rid (fst e) = i) cs)"
  by (simp add: invoked_def)







lemma one_shot_disable [simp]: "one_shot A me r d ph (disable_' s) = one_shot A me r d ph s"
proof -
  have "well_formed (disable_' s) = well_formed s"
    by (rule wf_cong) simp_all
  then show ?thesis by (simp add: one_shot_def)
qed


lemma step_quiet_due:
  assumes "heap s this = Some t" and "functionStack_' t \<noteq> []" and "\<not> delta t > dt"
    and "\<forall>r\<in>set (functionStack_' t). \<forall>n. callback r = Fn n \<longrightarrow> body A n = []"
  shows "step_' A this dt s =
         step_limit this (Some (functionStack_' t ! 0))
           (s\<lparr>heap := (heap s)(this \<mapsto> t\<lparr>delta := max 0 (maxdelta t - (dt - delta t))\<rparr>),
              calls := calls s @ map (\<lambda>r. (r, maxdelta t + dt - delta t)) (fired t)\<rparr>)"
proof -
  let ?d = "maxdelta t + dt - delta t"
  let ?nd = "maxdelta t - (dt - delta t)"
  let ?t1 = "t\<lparr>delta := (if ?nd < 0 then 0 else ?nd)\<rparr>"
  let ?s1 = "s\<lparr>heap := (heap s)(this \<mapsto> ?t1)\<rparr>"
  have "step_fire A this ?d (length (functionStack_' ?t1)) None ?s1 =
        Inr (if length (functionStack_' ?t1) = 0 then None else Some (functionStack_' ?t1 ! 0),
             ?s1\<lparr>calls := calls ?s1 @ map (\<lambda>r. (r, ?d))
                  (filter (\<lambda>r. active r \<and> goog_isFunction (callback r))
                     (rev (take (length (functionStack_' ?t1)) (functionStack_' ?t1))))\<rparr>)"
    using assms(4) by (intro step_fire_quiet) simp_all
  then have "step_fire A this ?d (length (functionStack_' t)) None ?s1 =
        Inr (Some (functionStack_' t ! 0), ?s1\<lparr>calls := calls s @ map (\<lambda>r. (r, ?d)) (fired t)\<rparr>)"
    using assms(2) by (simp add: fired_def)
  moreover have "(if ?nd < 0 then 0 else ?nd) = max 0 ?nd"
    by (simp add: max_def)
  ultimately show ?thesis
    using assms(1,2,3) by (simp add: step_'_def Let_def)
qed















lemma scheduled_fields [simp]:
  "heap (scheduled f c tid t s) =
     (heap s)(tid \<mapsto> t\<lparr>functionStack_' := functionStack_' t @
        [\<lparr>rid = next_id s, active = True, callback = f, ctx = c\<rparr>]\<rparr>)"
  "taskStack_' (scheduled f c tid t s) =
     (if TaskRef tid \<in> set (taskStack_' s) then taskStack_' s else taskStack_' s @ [TaskRef tid])"
  "next_id (scheduled f c tid t s) = Suc (next_id s)"
  "calls (scheduled f c tid t s) = calls s"
  "now (scheduled f c tid t s) = now s"
  by (simp_all add: scheduled_def Let_def)



section \<open>A tick with a group paused\<close>

lemma regroup_fields [simp]:
  "delta (regroup G d v t) = delta t" "maxdelta (regroup G d v t) = maxdelta t"
  "limit (regroup G d v t) = limit t"
  "functionStack_' (regroup G d v t) = map (set_activity G d v) (functionStack_' t)"
  by (simp_all add: regroup_def)

lemma regrouped_fields [simp]:
  "heap (regrouped G d v s) tid = map_option (regroup G d v) (heap s tid)"
  "calls (regrouped G d v s) = calls s" "taskStack_' (regrouped G d v s) = taskStack_' s"
  "next_id (regrouped G d v s) = next_id s" "active_' (regrouped G d v s) = active_' s"
  by (simp_all add: regrouped_def)

lemma muted_fields [simp]:
  "heap (muted G d k s) tid = map_option (regroup G d False) (heap s tid)"
  "taskStack_' (muted G d k s) = taskStack_' s"
  "next_id (muted G d k s) = next_id s" "active_' (muted G d k s) = active_' s"
  "calls (muted G d k s) = take k (calls s) @ filter (\<lambda>e. \<not> in_group G d (fst e)) (drop k (calls s))"
  by (simp_all add: muted_def)

lemma wf_regrouped: "well_formed s \<Longrightarrow> well_formed (regrouped G d v s)"
proof -
  assume wf: "well_formed s"
  show ?thesis
  proof (rule well_formedI)
    show "taskStack_' (regrouped G d v s) \<noteq> []" using wf by (simp add: wf_nonempty)
    show "distinct (taskStack_' (regrouped G d v s))" using wf by (simp add: wf_distinct_stack)
    show "\<exists>tid. r = TaskRef tid \<and> heap (regrouped G d v s) tid \<noteq> None"
      if "r \<in> set (taskStack_' (regrouped G d v s))" for r
    proof -
      from that have "r \<in> set (taskStack_' s)" by simp
      then obtain tid where "r = TaskRef tid" "heap s tid \<noteq> None"
        using wf_ref [OF wf] by blast
      then show ?thesis by auto
    qed
    show "tid < next_id (regrouped G d v s)" if "heap (regrouped G d v s) tid = Some u" for tid u
      using that wf_lt [OF wf] by auto
    show "wf_Task (next_id (regrouped G d v s)) u" if "heap (regrouped G d v s) tid = Some u" for tid u
    proof -
      from that obtain t where t: "heap s tid = Some t" "u = regroup G d v t" by auto
      have "wf_Task (next_id s) u = wf_Task (next_id s) t"
        unfolding t(2) by (rule wf_Task_rids) (simp add: comp_def)
      with wf_task [OF wf t(1)] show ?thesis by simp
    qed
    show "TaskRef tid \<in> set (taskStack_' (regrouped G d v s))"
      if "heap (regrouped G d v s) tid = Some u" "functionStack_' u \<noteq> []" for tid u
    proof -
      from that obtain t where t: "heap s tid = Some t" "u = regroup G d v t" by auto
      with that(2) have "functionStack_' t \<noteq> []" by auto
      with wf_on_stack [OF wf t(1)] show ?thesis by simp
    qed
  qed
qed

lemma wf_muted: "well_formed s \<Longrightarrow> well_formed (muted G d k s)"
  by (simp add: muted_def wf_regrouped)

lemma purge_regroup: "purge f c (regroup G d v t) = regroup G d v (purge f c t)"
  by (simp add: purge_def regroup_def filter_map comp_def matches_def)

lemma manager_eqI:
  fixes s s' :: scheduleManager
  assumes "taskStack_' s = taskStack_' s'" "active_' s = active_' s'" "intervalID_' s = intervalID_' s'"
    "displayRate_' s = displayRate_' s'" "lastRunTime_' s = lastRunTime_' s'"
    "USE_ANIMATION_FRAME s = USE_ANIMATION_FRAME s'" "\<And>tid. heap s tid = heap s' tid"
    "next_id s = next_id s'" "now s = now s'" "moz s = moz s'" "host s = host s'" "calls s = calls s'"
  shows "s = s'"
proof -
  have "heap s = heap s'" using assms(7) by (rule ext)
  with assms show ?thesis by simp
qed

lemma purged_muted: "purged f c (muted G d k s) = muted G d k (purged f c s)"
  by (rule manager_eqI) (simp_all add: muted_def regrouped_def purged_def purge_regroup option.map_comp comp_def)

lemma idle_muted [simp]: "idle (muted G d k s) = idle s"
  by (cases "taskStack_' s ! 0") (auto simp: idle_def)

lemma disable_muted: "disable_' (muted G d k s) = muted G d k (disable_' s)"
  by (rule manager_eqI) (simp_all add: muted_def regrouped_def disable_'_def Let_def)

lemma unschedule_muted:
  assumes "well_formed s"
  shows "unschedule f c (muted G d k s) = map_sum id (muted G d k) (unschedule f c s)"
  using assms
  by (simp add: unschedule_wf wf_muted purged_muted disable_muted)

lemma muted_update_Task:
  "muted G d k (s\<lparr>heap := (heap s)(tid \<mapsto> t)\<rparr>) =
   (muted G d k s)\<lparr>heap := (heap (muted G d k s))(tid \<mapsto> regroup G d False t)\<rparr>"
  by (rule manager_eqI) (simp_all add: muted_def regrouped_def)

lemma muted_calls_append:
  "k \<le> length (calls s) \<Longrightarrow>
   muted G d k (s\<lparr>calls := calls s @ cs\<rparr>) =
   (muted G d k s)\<lparr>calls := calls (muted G d k s) @ filter (\<lambda>e. \<not> in_group G d (fst e)) cs\<rparr>"
  by (rule manager_eqI) (simp_all add: muted_def regrouped_def)

lemma active_set_activity:
  "active (set_activity G d False r) = (active r \<and> \<not> in_group G d r)"
  by (simp add: set_activity_def)

lemma fired_regroup:
  "fired (regroup G d False t) = filter (\<lambda>r. \<not> in_group G d r) (fired t)"
proof -
  let ?P = "\<lambda>r. active r \<and> goog_isFunction (callback r)"
  let ?Q = "\<lambda>r. ?P (set_activity G d False r)"
  let ?fs = "rev (functionStack_' t)"
  have Q: "?Q r = (?P r \<and> \<not> in_group G d r)" for r
    by (auto simp: active_set_activity)
  have "fired (regroup G d False t) = filter ?P (map (set_activity G d False) ?fs)"
    by (simp add: fired_def rev_map)
  also have "\<dots> = map (set_activity G d False) (filter ?Q ?fs)"
    by (simp add: filter_map comp_def)
  also have "\<dots> = filter ?Q ?fs"
    by (rule map_idI) (auto simp: set_activity_def)
  also have "\<dots> = filter (\<lambda>r. \<not> in_group G d r) (fired t)"
    unfolding fired_def filter_filter by (rule filter_cong) (auto simp: active_set_activity)
  finally show ?thesis .
qed

lemma regroup_update [simp]:
  "(regroup G d v t)\<lparr>limit := x\<rparr> = regroup G d v (t\<lparr>limit := x\<rparr>)"
  "(regroup G d v t)\<lparr>delta := y\<rparr> = regroup G d v (t\<lparr>delta := y\<rparr>)"
  by (simp_all add: regroup_def)

lemma step_limit_muted:
  assumes "well_formed s"
  shows "step_limit tid (Some (set_activity G d False r0)) (muted G d k s) =
         map_sum id (muted G d k) (step_limit tid (Some r0) s)"
proof (cases "heap s tid")
  case None
  then show ?thesis by (simp add: step_limit_def)
next
  case (Some t)
  let ?t' = "t\<lparr>limit := limit t - 1\<rparr>"
  let ?s' = "s\<lparr>heap := (heap s)(tid \<mapsto> ?t')\<rparr>"
  let ?m' = "(muted G d k s)\<lparr>heap := (heap (muted G d k s))(tid \<mapsto> regroup G d False ?t')\<rparr>"
  have wf': "well_formed ?s'"
    by (rule wf_update_Task [OF assms Some]) simp
  have m: "?m' = muted G d k ?s'"
    by (simp only: muted_update_Task)
  have un: "unschedule (callback r0) (ctx r0) ?m' =
      map_sum id (muted G d k) (unschedule (callback r0) (ctx r0) ?s')"
    unfolding m using wf' by (rule unschedule_muted)
  define b1 where "b1 = (limit t \<noteq> - 1)"
  define b2 where "b2 = (limit ?t' = 0)"
  have l: "step_limit tid (Some (set_activity G d False r0)) (muted G d k s) =
      (if b1 then if b2 then unschedule (callback r0) (ctx r0) (muted G d k ?s')
                  else Inr (muted G d k ?s')
       else Inr (muted G d k s))"
    using Some unfolding m [symmetric] by (simp add: step_limit_def Let_def b1_def b2_def)
  have r: "step_limit tid (Some r0) s =
      (if b1 then if b2 then unschedule (callback r0) (ctx r0) ?s' else Inr ?s'
       else Inr s)"
    using Some by (simp add: step_limit_def Let_def b1_def b2_def)
  have un': "unschedule (callback r0) (ctx r0) (muted G d k ?s') =
      map_sum id (muted G d k) (unschedule (callback r0) (ctx r0) ?s')"
    using un unfolding m .
  show ?thesis
    unfolding l r by (cases b1; cases b2; simp add: un')
qed

lemma quiet_managerD:
  "quiet_manager A s \<Longrightarrow> heap s tid = Some t \<Longrightarrow>
   \<forall>r\<in>set (functionStack_' t). \<forall>n. callback r = Fn n \<longrightarrow> body A n = []"
  unfolding quiet_manager_def by blast

lemma quiet_update_Task:
  "quiet_manager A s \<Longrightarrow> heap s tid = Some t \<Longrightarrow> functionStack_' t' = functionStack_' t \<Longrightarrow>
   quiet_manager A (s\<lparr>heap := (heap s)(tid \<mapsto> t')\<rparr>)"
  unfolding quiet_manager_def by (auto split: if_splits)

lemma quiet_calls [simp]: "quiet_manager A (s\<lparr>calls := cs\<rparr>) = quiet_manager A s"
  by (simp add: quiet_manager_def)

lemma quiet_disable [simp]: "quiet_manager A (disable_' s) = quiet_manager A s"
  by (simp add: quiet_manager_def)

lemma quiet_purged: "quiet_manager A s \<Longrightarrow> quiet_manager A (purged f c s)"
  unfolding quiet_manager_def by auto

lemma quiet_unschedule:
  "well_formed s \<Longrightarrow> quiet_manager A s \<Longrightarrow> unschedule f c s = Inr s' \<Longrightarrow>
   quiet_manager A s' \<and> calls s' = calls s \<and> taskStack_' s' = taskStack_' s"
  by (auto simp: unschedule_wf quiet_purged split: if_splits)

text \<open>A step of a quiet, well-formed manager returns, and keeps it quiet and well formed.\<close>

lemma step_limit_quiet_keeps:
  assumes wf: "well_formed s" and q: "quiet_manager A s" and t: "heap s tid = Some t"
  shows "\<exists>s'. step_limit tid (Some r0) s = Inr s' \<and> quiet_manager A s' \<and> calls s' = calls s \<and>
              taskStack_' s' = taskStack_' s"
proof -
  let ?s' = "s\<lparr>heap := (heap s)(tid \<mapsto> t\<lparr>limit := limit t - 1\<rparr>)\<rparr>"
  have wf': "well_formed ?s'"
    by (rule wf_update_Task [OF wf t]) simp
  have q': "quiet_manager A ?s'"
    by (rule quiet_update_Task [OF q t]) simp
  obtain s'' where u: "unschedule (callback r0) (ctx r0) ?s' = Inr s''"
    using unschedule_returns [OF wf'] by blast
  have "quiet_manager A s'' \<and> calls s'' = calls ?s' \<and> taskStack_' s'' = taskStack_' ?s'"
    using wf' q' u by (rule quiet_unschedule)
  with u q q' t show ?thesis
    by (auto simp: step_limit_def Let_def)
qed

lemma step_quiet_keeps:
  assumes wf: "well_formed s" and q: "quiet_manager A s" and t: "heap s tid = Some t"
  shows "\<exists>s'. step_' A tid dt s = Inr s' \<and> quiet_manager A s' \<and>
              length (calls s) \<le> length (calls s') \<and> taskStack_' s' = taskStack_' s"
proof -
  consider (empty) "functionStack_' t = []"
    | (wait) "functionStack_' t \<noteq> []" "delta t > dt"
    | (due) "functionStack_' t \<noteq> []" "\<not> delta t > dt"
    by blast
  then show ?thesis
  proof cases
    case empty
    with t q show ?thesis by (simp add: step_'_def)
  next
    case wait
    have "quiet_manager A (s\<lparr>heap := (heap s)(tid \<mapsto> t\<lparr>delta := delta t - dt\<rparr>)\<rparr>)"
      by (rule quiet_update_Task [OF q t]) simp
    with wait t show ?thesis by (simp add: step_'_def)
  next
    case due
    let ?t1 = "t\<lparr>delta := max 0 (maxdelta t - (dt - delta t))\<rparr>"
    let ?cs = "map (\<lambda>r. (r, maxdelta t + dt - delta t)) (fired t)"
    let ?s1 = "s\<lparr>heap := (heap s)(tid \<mapsto> ?t1)\<rparr>"
    let ?s2 = "s\<lparr>heap := (heap s)(tid \<mapsto> ?t1), calls := calls s @ ?cs\<rparr>"
    have st: "step_' A tid dt s = step_limit tid (Some (functionStack_' t ! 0)) ?s2"
      using t due quiet_managerD [OF q t] by (rule step_quiet_due)
    have "well_formed ?s1" by (rule wf_update_Task [OF wf t]) simp
    then have wf2: "well_formed ?s2" by (simp add: well_formed_def)
    have "quiet_manager A ?s1" by (rule quiet_update_Task [OF q t]) simp
    then have q2: "quiet_manager A ?s2" by (simp add: quiet_manager_def)
    have h2: "heap ?s2 tid = Some ?t1" by simp
    from step_limit_quiet_keeps [OF wf2 q2 h2, of "functionStack_' t ! 0"] st
    show ?thesis by auto
  qed
qed

lemma muted_fire:
  assumes "k \<le> length (calls s)"
  shows "muted G d k (s\<lparr>heap := (heap s)(tid \<mapsto> t), calls := calls s @ map (\<lambda>r. (r, e)) rs\<rparr>) =
         (muted G d k s)\<lparr>heap := (heap (muted G d k s))(tid \<mapsto> regroup G d False t),
            calls := calls (muted G d k s) @ map (\<lambda>r. (r, e)) (filter (\<lambda>r. \<not> in_group G d r) rs)\<rparr>"
  using assms
  by (intro manager_eqI) (simp_all add: muted_def regrouped_def filter_map comp_def)

lemma step_muted:
  assumes wf: "well_formed s" and q: "quiet_manager A s" and k: "k \<le> length (calls s)"
  shows "step_' A tid dt (muted G d k s) = map_sum id (muted G d k) (step_' A tid dt s)"
proof (cases "heap s tid")
  case None
  then show ?thesis by (simp add: step_'_def)
next
  case (Some t)
  let ?m = "muted G d k s"
  have hm: "heap ?m tid = Some (regroup G d False t)"
    using Some by simp
  consider (empty) "functionStack_' t = []"
    | (wait) "functionStack_' t \<noteq> []" "delta t > dt"
    | (due) "functionStack_' t \<noteq> []" "\<not> delta t > dt"
    by blast
  then show ?thesis
  proof cases
    case empty
    with Some hm show ?thesis by (simp add: step_'_def)
  next
    case wait
    with Some hm show ?thesis
      by (simp add: step_'_def muted_update_Task del: muted_fields)
  next
    case due
    let ?fs = "functionStack_' t"
    let ?e = "maxdelta t + dt - delta t"
    let ?t1 = "t\<lparr>delta := max 0 (maxdelta t - (dt - delta t))\<rparr>"
    let ?s2 = "s\<lparr>heap := (heap s)(tid \<mapsto> ?t1), calls := calls s @ map (\<lambda>r. (r, ?e)) (fired t)\<rparr>"
    have st: "step_' A tid dt s = step_limit tid (Some (?fs ! 0)) ?s2"
      using Some due quiet_managerD [OF q Some] by (rule step_quiet_due)
    have "well_formed (s\<lparr>heap := (heap s)(tid \<mapsto> ?t1)\<rparr>)"
      by (rule wf_update_Task [OF wf Some]) simp
    then have wf2: "well_formed ?s2" by (simp add: well_formed_def)
    have qm: "\<forall>r\<in>set (functionStack_' (regroup G d False t)). \<forall>n. callback r = Fn n \<longrightarrow> body A n = []"
      using quiet_managerD [OF q Some] by auto
    have "step_' A tid dt ?m =
        step_limit tid (Some (functionStack_' (regroup G d False t) ! 0))
          (?m\<lparr>heap := (heap ?m)(tid \<mapsto> (regroup G d False t)
                  \<lparr>delta := max 0 (maxdelta (regroup G d False t) - (dt - delta (regroup G d False t)))\<rparr>),
              calls := calls ?m @ map (\<lambda>r. (r, maxdelta (regroup G d False t) + dt - delta (regroup G d False t)))
                  (fired (regroup G d False t))\<rparr>)"
      using hm _ _ qm by (rule step_quiet_due) (use due in simp_all)
    also have "\<dots> = step_limit tid (Some (set_activity G d False (?fs ! 0)))
          (?m\<lparr>heap := (heap ?m)(tid \<mapsto> regroup G d False ?t1),
              calls := calls ?m @ map (\<lambda>r. (r, ?e)) (filter (\<lambda>r. \<not> in_group G d r) (fired t))\<rparr>)"
      using due(1) by (simp add: fired_regroup del: muted_fields)
    also have "\<dots> = step_limit tid (Some (set_activity G d False (?fs ! 0))) (muted G d k ?s2)"
      by (simp only: muted_fire [OF k])
    also have "\<dots> = map_sum id (muted G d k) (step_limit tid (Some (?fs ! 0)) ?s2)"
      using wf2 by (rule step_limit_muted)
    finally show ?thesis by (simp only: st)
  qed
qed

lemma dispatch_loop_muted:
  assumes "well_formed s" and "quiet_manager A s" and "k \<le> length (calls s)"
    and "i \<le> length (taskStack_' s)"
  shows "(\<exists>s1. dispatch_loop A dt i s = Inr s1 \<and> taskStack_' s1 = taskStack_' s \<and>
               length (calls s) \<le> length (calls s1)) \<and>
         dispatch_loop A dt i (muted G d k s) = map_sum id (muted G d k) (dispatch_loop A dt i s)"
  using assms
proof (induction i arbitrary: s)
  case 0
  then show ?case by simp
next
  case (Suc i)
  then have i: "i < length (taskStack_' s)" by simp
  obtain tid t where ref: "taskStack_' s ! i = TaskRef tid" and t: "heap s tid = Some t"
    using wf_ref [OF Suc.prems(1), of "taskStack_' s ! i"] i by auto
  obtain s1 where s1: "step_' A tid dt s = Inr s1" "quiet_manager A s1"
    "length (calls s) \<le> length (calls s1)" "taskStack_' s1 = taskStack_' s"
    using step_quiet_keeps [OF Suc.prems(1,2) t] by blast
  have wf1: "well_formed s1" using Suc.prems(1) s1(1) by (rule wf_step)
  have k1: "k \<le> length (calls s1)" using Suc.prems(3) s1(3) by simp
  have i1: "i \<le> length (taskStack_' s1)" using i s1(4) by simp
  note ih = Suc.IH [OF wf1 s1(2) k1 i1]
  have m: "step_' A tid dt (muted G d k s) = Inr (muted G d k s1)"
    using step_muted [OF Suc.prems(1,2,3), of tid dt G d] s1(1) by simp
  have "dispatch_loop A dt (Suc i) s = dispatch_loop A dt i s1"
    using i ref s1(1) by simp
  moreover have "dispatch_loop A dt (Suc i) (muted G d k s) = dispatch_loop A dt i (muted G d k s1)"
    using i ref m by simp
  ultimately show ?case
    using ih s1(3,4) by auto
qed

lemma muted_now: "muted G d (length (calls s)) s = regrouped G d False s"
  by (rule manager_eqI) (simp_all add: muted_def regrouped_def)

lemma object_contexts_regrouped: "object_contexts s \<Longrightarrow> object_contexts (regrouped G d v s)"
  unfolding object_contexts_def by auto

lemma in_group_active [simp]: "in_group G d (r\<lparr>active := w\<rparr>) = in_group G d r"
  by (simp add: in_group_def)

lemma regrouped_regrouped: "regrouped G d v (regrouped G d w s) = regrouped G d v s"
proof -
  have "set_activity G d v (set_activity G d w r) = set_activity G d v r" for r
    by (simp add: set_activity_def)
  then have "regroup G d v (regroup G d w t) = regroup G d v t" for t
    by (simp add: regroup_def)
  then show ?thesis
    by (intro manager_eqI) (simp_all add: regrouped_def option.map_comp comp_def)
qed

section \<open>A callback that unschedules itself\<close>

lemma filter_only_nth:
  assumes "p < length fs" and "P (fs ! p)" and "\<forall>j<length fs. j \<noteq> p \<longrightarrow> \<not> P (fs ! j)"
  shows "filter (\<lambda>r. \<not> P r) fs = take p fs @ drop (Suc p) fs"
proof -
  have fs: "fs = take p fs @ fs ! p # drop (Suc p) fs"
    using assms(1) by (rule id_take_nth_drop)
  have a: "\<forall>x\<in>set (take p fs). \<not> P x"
  proof
    fix x assume "x \<in> set (take p fs)"
    then obtain j where "j < p" "x = fs ! j"
      using assms(1) by (auto simp: in_set_conv_nth)
    with assms show "\<not> P x" by auto
  qed
  have b: "\<forall>x\<in>set (drop (Suc p) fs). \<not> P x"
  proof
    fix x assume "x \<in> set (drop (Suc p) fs)"
    then obtain j where "j < length fs - Suc p" "x = fs ! (Suc p + j)"
      by (auto simp: in_set_conv_nth)
    with assms show "\<not> P x" by auto
  qed
  have "filter (\<lambda>r. \<not> P r) fs =
      filter (\<lambda>r. \<not> P r) (take p fs) @ filter (\<lambda>r. \<not> P r) (fs ! p # drop (Suc p) fs)"
    by (subst fs) (simp only: filter_append)
  also have "\<dots> = take p fs @ drop (Suc p) fs"
    using a b assms(2) by (simp add: filter_id_conv)
  finally show ?thesis .
qed

lemma step_fire_self_unschedule:
  assumes "well_formed s" and "heap s this = Some t"
    and "functionStack_' t = (if c \<le> p then take p fs @ drop (Suc p) fs else fs)"
    and "p < length fs" and "active (fs ! p)" and "callback (fs ! p) = Fn n"
    and "body A n = [Unschedule (Fn n) (ctx (fs ! p))]"
    and "\<forall>j<length fs. j \<noteq> p \<longrightarrow> \<not> matches (Fn n) (ctx (fs ! p)) (fs ! j) \<and>
           (\<forall>m. callback (fs ! j) = Fn m \<longrightarrow> body A m = [])"
    and "c \<le> length fs" and "0 < c \<or> f \<noteq> None"
  shows "\<exists>r s'. step_fire A this d c f s = Inr (Some r, s') \<and> well_formed s' \<and>
           (\<exists>t'. heap s' this = Some t' \<and> delta t' = delta t \<and> maxdelta t' = maxdelta t \<and>
                  limit t' = limit t) \<and>
           calls s' = calls s @ map (\<lambda>r. (r, d))
             (filter (\<lambda>r. active r \<and> goog_isFunction (callback r)) (rev (take c fs)))"
  using assms(1,2,3,9,10)
proof (induction c arbitrary: s t f)
  case 0
  then show ?case by auto
next
  case (Suc i)
  let ?P = "\<lambda>r. active r \<and> goog_isFunction (callback r)"
  have i: "i < length fs" using Suc.prems(4) by simp
  have len: "i < length (functionStack_' t)" and rd: "functionStack_' t ! i = fs ! i"
    using Suc.prems(3) i assms(4) by (auto simp: nth_append min_def)
  have tk: "rev (take (Suc i) fs) = fs ! i # rev (take i fs)"
    using i by (simp add: take_Suc_conv_app_nth)
  show ?case
  proof (cases "i = p")
    case True
    let ?r = "fs ! p"
    let ?s1 = "s\<lparr>calls := calls s @ [(?r, d)]\<rparr>"
    have stack: "functionStack_' t = fs" using Suc.prems(3) True by simp
    have wf1: "well_formed ?s1" using Suc.prems(1) by simp
    obtain s2 where s2: "unschedule (Fn n) (ctx ?r) ?s1 = Inr s2"
      using unschedule_returns [OF wf1] by blast
    have wf2: "well_formed s2" using wf1 s2 by (rule wf_unschedule)
    have h2: "heap s2 this = Some (purge (Fn n) (ctx ?r) t)"
      using unschedule_heap(1) [OF wf1 s2, of this] Suc.prems(2) by simp
    have c2: "calls s2 = calls s @ [(?r, d)]"
      using unschedule_heap(2) [OF wf1 s2] by simp
    have m: "matches (Fn n) (ctx ?r) ?r"
      using assms(6) by (simp add: matches_def)
    have "filter (\<lambda>r. \<not> matches (Fn n) (ctx ?r) r) fs = take p fs @ drop (Suc p) fs"
      using assms(4) m assms(8) by (intro filter_only_nth) auto
    then have st2: "functionStack_' (purge (Fn n) (ctx ?r) t) =
        (if i \<le> p then take p fs @ drop (Suc p) fs else fs)"
      using True stack by simp
    have call: "call A ?r d s = Inr s2"
      using assms(6,7) s2 by simp
    have step: "step_fire A this d (Suc i) f s = step_fire A this d i (Some ?r) s2"
      using Suc.prems(2) len rd True assms(5,6) call
      by (simp add: Let_def del: call.simps)
    from Suc.IH [OF wf2 h2 st2, of "Some ?r"] i
    obtain r' s' where "step_fire A this d i (Some ?r) s2 = Inr (Some r', s')" "well_formed s'"
      "\<exists>t'. heap s' this = Some t' \<and> delta t' = delta (purge (Fn n) (ctx ?r) t) \<and>
            maxdelta t' = maxdelta (purge (Fn n) (ctx ?r) t) \<and>
            limit t' = limit (purge (Fn n) (ctx ?r) t)"
      "calls s' = calls s2 @ map (\<lambda>r. (r, d)) (filter ?P (rev (take i fs)))"
      by auto
    with step c2 tk True assms(5,6) show ?thesis by auto
  next
    case False
    let ?r = "fs ! i"
    have q: "\<forall>m. callback ?r = Fn m \<longrightarrow> body A m = []"
      using assms(8) i False by blast
    have st: "functionStack_' t = (if i \<le> p then take p fs @ drop (Suc p) fs else fs)"
      using Suc.prems(3) False by (auto simp: not_less_eq_eq)
    show ?thesis
    proof (cases "?P ?r")
      case True
      then obtain m where m: "callback ?r = Fn m" by (cases "callback ?r") auto
      with q have "body A m = []" by blast
      with m have call: "call A ?r d s = Inr (s\<lparr>calls := calls s @ [(?r, d)]\<rparr>)" by simp
      let ?s1 = "s\<lparr>calls := calls s @ [(?r, d)]\<rparr>"
      have step: "step_fire A this d (Suc i) f s = step_fire A this d i (Some ?r) ?s1"
        using Suc.prems(2) len rd True call by (simp add: Let_def del: call.simps)
      have wf1: "well_formed ?s1" using Suc.prems(1) by simp
      have h1: "heap ?s1 this = Some t" using Suc.prems(2) by simp
      from Suc.IH [OF wf1 h1 st, of "Some ?r"] i
      obtain r' s' where "step_fire A this d i (Some ?r) ?s1 = Inr (Some r', s')" "well_formed s'"
        "\<exists>t'. heap s' this = Some t' \<and> delta t' = delta t \<and> maxdelta t' = maxdelta t \<and>
              limit t' = limit t"
        "calls s' = calls ?s1 @ map (\<lambda>r. (r, d)) (filter ?P (rev (take i fs)))"
        by auto
      with step tk True show ?thesis by auto
    next
      case nf: False
      have step: "step_fire A this d (Suc i) f s = step_fire A this d i (Some ?r) s"
        using Suc.prems(2) len rd nf by (auto simp: Let_def simp del: call.simps)
      from Suc.IH [OF Suc.prems(1,2) st, of "Some ?r"] i
      obtain r' s' where "step_fire A this d i (Some ?r) s = Inr (Some r', s')" "well_formed s'"
        "\<exists>t'. heap s' this = Some t' \<and> delta t' = delta t \<and> maxdelta t' = maxdelta t \<and>
              limit t' = limit t"
        "calls s' = calls s @ map (\<lambda>r. (r, d)) (filter ?P (rev (take i fs)))"
        by auto
      with step tk nf show ?thesis by auto
    qed
  qed
qed

text \<open>
  When the pair of the callback is registered once in the task, and the other callbacks
  of the task leave the manager alone, a callback that unschedules its own pair does
  not disturb the tick: the registrations invoked are those of \<open>fired\<close>, each once.
\<close>

lemma step_self_unschedule:
  assumes wf: "well_formed s" and t: "heap s this = Some t"
    and p: "p < length (functionStack_' t)"
    and a: "active (functionStack_' t ! p)" and n: "callback (functionStack_' t ! p) = Fn n"
    and b: "body A n = [Unschedule (Fn n) (ctx (functionStack_' t ! p))]"
    and o: "\<forall>j<length (functionStack_' t). j \<noteq> p \<longrightarrow>
           \<not> matches (Fn n) (ctx (functionStack_' t ! p)) (functionStack_' t ! j) \<and>
           (\<forall>m. callback (functionStack_' t ! j) = Fn m \<longrightarrow> body A m = [])"
    and due: "\<not> delta t > dt"
  shows "\<exists>s'. step_' A this dt s = Inr s' \<and>
           calls s' = calls s @ map (\<lambda>r. (r, maxdelta t + dt - delta t)) (fired t)"
proof -
  let ?fs = "functionStack_' t"
  let ?d = "maxdelta t + dt - delta t"
  let ?nd = "maxdelta t - (dt - delta t)"
  let ?t1 = "t\<lparr>delta := (if ?nd < 0 then 0 else ?nd)\<rparr>"
  let ?s1 = "s\<lparr>heap := (heap s)(this \<mapsto> ?t1)\<rparr>"
  have ne: "?fs \<noteq> []" using p by auto
  have wf1: "well_formed ?s1"
    by (rule wf_update_Task [OF wf t]) simp
  have h1: "heap ?s1 this = Some ?t1" by simp
  have st: "functionStack_' ?t1 = (if length ?fs \<le> p then take p ?fs @ drop (Suc p) ?fs else ?fs)"
    using p by simp
  have c: "0 < length ?fs \<or> (None :: reg option) \<noteq> None" using p by auto
  from step_fire_self_unschedule [OF wf1 h1 st p a n b o order_refl c, of ?d]
  obtain r s2 where f: "step_fire A this ?d (length ?fs) None ?s1 = Inr (Some r, s2)"
    and wf2: "well_formed s2" and h2: "\<exists>t'. heap s2 this = Some t'"
    and c2: "calls s2 = calls ?s1 @ map (\<lambda>r. (r, ?d))
             (filter (\<lambda>r. active r \<and> goog_isFunction (callback r)) (rev (take (length ?fs) ?fs)))"
    by blast
  from h2 obtain t2 where t2: "heap s2 this = Some t2" by blast
  obtain s' where s': "step_limit this (Some r) s2 = Inr s'" "calls s' = calls s2"
    using step_limit_quiet [OF wf2 t2] by blast
  have "step_' A this dt s = Inr s'"
    using t ne due f s'(1) by (simp add: step_'_def Let_def)
  moreover have "calls s' = calls s @ map (\<lambda>r. (r, ?d)) (fired t)"
    using s'(2) c2 by (simp add: fired_def)
  ultimately show ?thesis by blast
qed

section \<open>The elapsed times given to callbacks\<close>

lemma in_cadence_update:
  "in_cadence s \<Longrightarrow> 0 \<le> maxdelta t' \<Longrightarrow> delta t' \<le> maxdelta t' \<Longrightarrow>
   in_cadence (s\<lparr>heap := (heap s)(tid \<mapsto> t')\<rparr>)"
  unfolding in_cadence_def by auto

lemma in_cadence_calls [simp]: "in_cadence (s\<lparr>calls := cs\<rparr>) = in_cadence s"
  by (simp add: in_cadence_def)

lemma in_cadence_unschedule:
  assumes "well_formed s" and "in_cadence s" and "unschedule f c s = Inr s'"
  shows "in_cadence s'"
  unfolding in_cadence_def
proof (intro allI impI)
  fix tid t' assume h: "heap s' tid = Some t'"
  then obtain t where t: "heap s tid = Some t" "t' = purge f c t"
    using unschedule_heap(1) [OF assms(1,3), of tid] by auto
  with assms(2) show "0 \<le> maxdelta t' \<and> delta t' \<le> maxdelta t'"
    by (simp add: in_cadence_def)
qed

lemma step_limit_in_cadence:
  assumes wf: "well_formed s" and c: "in_cadence s" and st: "step_limit tid (Some r0) s = Inr s'"
  shows "in_cadence s'"
proof -
  from st obtain t where t: "heap s tid = Some t"
    by (auto simp: step_limit_def split: option.splits)
  let ?s1 = "s\<lparr>heap := (heap s)(tid \<mapsto> t\<lparr>limit := limit t - 1\<rparr>)\<rparr>"
  have wf1: "well_formed ?s1" by (rule wf_update_Task [OF wf t]) simp
  have c1: "in_cadence ?s1"
    using c t by (intro in_cadence_update) (simp_all add: in_cadence_def)
  from st t c c1 wf1 show ?thesis
    by (auto simp: step_limit_def Let_def split: if_splits dest: in_cadence_unschedule)
qed

lemma step_quiet_elapsed:
  assumes wf: "well_formed s" and q: "quiet_manager A s" and c: "in_cadence s"
    and t: "heap s tid = Some t" and dt: "0 \<le> dt"
  shows "\<exists>s'. step_' A tid dt s = Inr s' \<and> in_cadence s' \<and>
              (\<exists>cs. calls s' = calls s @ cs \<and> (\<forall>e\<in>set cs. dt \<le> snd e))"
proof -
  have tc: "0 \<le> maxdelta t" "delta t \<le> maxdelta t"
    using c t by (simp_all add: in_cadence_def)
  consider (empty) "functionStack_' t = []"
    | (wait) "functionStack_' t \<noteq> []" "delta t > dt"
    | (due) "functionStack_' t \<noteq> []" "\<not> delta t > dt"
    by blast
  then show ?thesis
  proof cases
    case empty
    with t c show ?thesis by (simp add: step_'_def)
  next
    case wait
    have "in_cadence (s\<lparr>heap := (heap s)(tid \<mapsto> t\<lparr>delta := delta t - dt\<rparr>)\<rparr>)"
      using c tc dt by (intro in_cadence_update) simp_all
    with wait t show ?thesis by (simp add: step_'_def)
  next
    case due
    let ?t1 = "t\<lparr>delta := max 0 (maxdelta t - (dt - delta t))\<rparr>"
    let ?cs = "map (\<lambda>r. (r, maxdelta t + dt - delta t)) (fired t)"
    let ?s1 = "s\<lparr>heap := (heap s)(tid \<mapsto> ?t1)\<rparr>"
    let ?s2 = "s\<lparr>heap := (heap s)(tid \<mapsto> ?t1), calls := calls s @ ?cs\<rparr>"
    have st: "step_' A tid dt s = step_limit tid (Some (functionStack_' t ! 0)) ?s2"
      using t due quiet_managerD [OF q t] by (rule step_quiet_due)
    have "well_formed ?s1" by (rule wf_update_Task [OF wf t]) simp
    then have wf2: "well_formed ?s2" by (simp add: well_formed_def)
    have "quiet_manager A ?s1" by (rule quiet_update_Task [OF q t]) simp
    then have q2: "quiet_manager A ?s2" by (simp add: quiet_manager_def)
    have "in_cadence ?s1"
      using c tc due(2) by (intro in_cadence_update) simp_all
    then have c2: "in_cadence ?s2" by (simp add: in_cadence_def)
    have h2: "heap ?s2 tid = Some ?t1" by simp
    obtain s' where s': "step_limit tid (Some (functionStack_' t ! 0)) ?s2 = Inr s'"
      "calls s' = calls ?s2"
      using step_limit_quiet_keeps [OF wf2 q2 h2, of "functionStack_' t ! 0"] by blast
    have "in_cadence s'" using wf2 c2 s'(1) by (rule step_limit_in_cadence)
    moreover have "\<forall>e\<in>set ?cs. dt \<le> snd e" using tc by auto
    ultimately show ?thesis using st s' by auto
  qed
qed

lemma dispatch_loop_elapsed:
  assumes "well_formed s" and "quiet_manager A s" and "in_cadence s" and "0 \<le> dt"
    and "i \<le> length (taskStack_' s)"
  shows "\<exists>s'. dispatch_loop A dt i s = Inr s' \<and>
              (\<exists>cs. calls s' = calls s @ cs \<and> (\<forall>e\<in>set cs. dt \<le> snd e))"
  using assms
proof (induction i arbitrary: s)
  case 0
  then show ?case by simp
next
  case (Suc i)
  then have i: "i < length (taskStack_' s)" by simp
  obtain tid t where ref: "taskStack_' s ! i = TaskRef tid" and t: "heap s tid = Some t"
    using wf_ref [OF Suc.prems(1), of "taskStack_' s ! i"] i by auto
  obtain s1 cs1 where s1: "step_' A tid dt s = Inr s1" "in_cadence s1"
    "calls s1 = calls s @ cs1" "\<forall>e\<in>set cs1. dt \<le> snd e"
    using step_quiet_elapsed [OF Suc.prems(1,2,3) t Suc.prems(4)] by blast
  obtain s1' where k: "step_' A tid dt s = Inr s1'" "quiet_manager A s1'"
    "taskStack_' s1' = taskStack_' s"
    using step_quiet_keeps [OF Suc.prems(1,2) t] by blast
  with s1(1) have q1: "quiet_manager A s1" and ts: "taskStack_' s1 = taskStack_' s" by simp_all
  have wf1: "well_formed s1" using Suc.prems(1) s1(1) by (rule wf_step)
  have "i \<le> length (taskStack_' s1)" using i ts by simp
  from Suc.IH [OF wf1 q1 s1(2) Suc.prems(4) this]
  obtain s' cs where "dispatch_loop A dt i s1 = Inr s'" "calls s' = calls s1 @ cs"
    "\<forall>e\<in>set cs. dt \<le> snd e"
    by blast
  moreover have "dispatch_loop A dt (Suc i) s = dispatch_loop A dt i s1"
    using i ref s1(1) by simp
  ultimately show ?case
    using s1(3,4) by (intro exI [of _ s'] conjI exI [of _ "cs1 @ cs"]) auto
qed

section \<open>The clock and the registrations\<close>

text \<open>
  C1 (the clock runs if and only if some task holds a registration: it is stopped by the
  call that removes the last registration). The code does not keep this. Line 167 never
  takes a task off the task stack, so once a second task is on it the test of lines 171
  and 172 fails for good: whatever it removes, \<^verbatim>\<open>unschedule\<close> leaves the manager as
  active as it was and makes no call to the host. So a function scheduled with a delay
  and then unscheduled leaves the manager active, the interval timer running, and no
  registration in any task.
\<close>

theorem unschedule_never_stops_clock_with_two_tasks:
  assumes "well_formed s" and "length (taskStack_' s) \<noteq> 1"
  shows "\<exists>s'. unschedule f c s = Inr s' \<and> active_' s' = active_' s \<and> host s' = host s \<and>
              taskStack_' s' = taskStack_' s"
  using assms by (simp add: unschedule_wf idle_def purged_def)

theorem unschedule_never_stops_clock_with_two_tasks_witness:
  "\<exists>s s'. scheduleWithDelay (Fn 1) (Obj 1) 100 None (init False False 0) = Inr s \<and>
      unschedule (Fn 1) (Obj 1) s = Inr s' \<and>
      active_' s' = True \<and> map (get_functionStack_' s') (taskStack_' s') = [Some [], Some []] \<and>
      host s' = [SetInterval (100 / 3)]"
proof -
  obtain s where s: "scheduleWithDelay (Fn 1) (Obj 1) 100 None (init False False 0) = Inr s"
    by (simp add: manager_defs)
  have w: "well_formed s"
    using wf_init s by (rule wf_scheduleWithDelay)
  have f: "taskStack_' s = [TaskRef 0, TaskRef 1]" "active_' s" "host s = [SetInterval (100 / 3)]"
    using s by (auto simp: manager_defs)
  then have "length (taskStack_' s) \<noteq> 1" by simp
  from unschedule_never_stops_clock_with_two_tasks [OF w this, of "Fn 1" "Obj 1"]
  obtain s' where s': "unschedule (Fn 1) (Obj 1) s = Inr s'" "active_' s' = active_' s"
    "host s' = host s" "taskStack_' s' = taskStack_' s"
    by blast
  have "map_sum id (\<lambda>s'. map (get_functionStack_' s') (taskStack_' s'))
      (and_then (scheduleWithDelay (Fn 1) (Obj 1) 100 None (init False False 0))
         (unschedule (Fn 1) (Obj 1))) = Inr [Some [], Some []]"
    by (simp add: manager_defs)
  with s s' have "map (get_functionStack_' s') (taskStack_' s') = [Some [], Some []]"
    by (simp add: and_then_def)
  with s s' f show ?thesis by auto
qed

text \<open>
  C2 (unschedule removes the matching registrations and drops every task other than the
  default one that is left empty). The registrations for the pair are removed from
  every task; the task stack is never changed: line 167 looks the function stack up in
  the task stack, which holds tasks. So a task left empty stays on the task stack.
\<close>

theorem unschedule_keeps_tasks:
  assumes "well_formed s"
  shows "\<exists>s'. unschedule f c s = Inr s' \<and> taskStack_' s' = taskStack_' s \<and>
              (\<forall>tid. heap s' tid = map_option (purge f c) (heap s tid))"
  using assms by (simp add: unschedule_wf)

theorem unschedule_keeps_tasks_witness:
  "\<exists>s s'. schedule (Fn 1) (Obj 1) (Some 1) (snd (alloc_Task 50 None (init False False 0))) = Inr s \<and>
      unschedule (Fn 1) (Obj 1) s = Inr s' \<and>
      taskStack_' s' = [TaskRef 0, TaskRef 1] \<and>
      map (get_functionStack_' s') (taskStack_' s') = [Some [], Some []]"
proof -
  let ?a = "snd (alloc_Task 50 None (init False False 0))"
  obtain s where s: "schedule (Fn 1) (Obj 1) (Some 1) ?a = Inr s"
    by (simp add: manager_defs)
  have "well_formed ?a"
    using wf_init by (rule wf_alloc_Task) (simp add: alloc_Task_def)
  then have w: "well_formed s"
    using s by (rule wf_schedule)
  have ts: "taskStack_' s = [TaskRef 0, TaskRef 1]"
    using s by (auto simp: manager_defs)
  have h: "map_option functionStack_' (heap s 0) = Some []"
    "map_option functionStack_' (heap s 1) = Some [\<lparr>rid = 2, active = True, callback = Fn 1, ctx = Obj 1\<rparr>]"
    using s by (auto simp: manager_defs)
  from unschedule_keeps_tasks [OF w, of "Fn 1" "Obj 1"]
  obtain s' where s': "unschedule (Fn 1) (Obj 1) s = Inr s'" "taskStack_' s' = taskStack_' s"
    "\<forall>tid. heap s' tid = map_option (purge (Fn 1) (Obj 1)) (heap s tid)"
    by blast
  have "map (get_functionStack_' s') (taskStack_' s') = [Some [], Some []]"
    using s'(2,3) ts h by (auto simp: matches_def)
  with s s' ts show ?thesis by auto
qed

text \<open>
  C3 (scheduling the same function and context twice on one task leaves one
  registration). The code adds a registration whatever the task holds: the array handed
  to \<^verbatim>\<open>goog.array.insert\<close> at line 141 is a new object, which the function stack never
  contains. So scheduling a pair twice leaves two registrations.
\<close>

theorem schedule_always_registers:
  assumes "well_formed s" and "heap s tid = Some t"
  shows "(taskStack_' s ! 0 = TaskRef tid \<longrightarrow> schedule f c None s = schedule f c (Some tid) s) \<and>
    (\<exists>s'. schedule f c (Some tid) s = Inr s' \<and>
          map_option functionStack_' (heap s' tid) =
            Some (functionStack_' t @ [\<lparr>rid = next_id s, active = True, callback = f, ctx = c\<rparr>]))"
  using assms by (simp add: schedule_Some_wf schedule_None_wf)

theorem schedule_always_registers_witness:
  "\<exists>s s'. schedule (Fn 1) (Obj 1) None (init False False 0) = Inr s \<and>
      schedule (Fn 1) (Obj 1) None s = Inr s' \<and>
      map_option functionStack_' (heap s' 0) =
        Some [\<lparr>rid = 1, active = True, callback = Fn 1, ctx = Obj 1\<rparr>,
              \<lparr>rid = 2, active = True, callback = Fn 1, ctx = Obj 1\<rparr>]"
proof -
  obtain s where s: "schedule (Fn 1) (Obj 1) None (init False False 0) = Inr s"
    by (simp add: manager_defs)
  have w: "well_formed s"
    using wf_init s by (rule wf_schedule)
  let ?t = "(Task_new 0 None)\<lparr>functionStack_' := [\<lparr>rid = 1, active = True, callback = Fn 1, ctx = Obj 1\<rparr>]\<rparr>"
  have h: "heap s 0 = Some ?t" "next_id s = 2" "taskStack_' s ! 0 = TaskRef 0"
    using s by (auto simp: manager_defs)
  from schedule_always_registers [OF w h(1), of "Fn 1" "Obj 1"] h(2,3)
  obtain s' where "schedule (Fn 1) (Obj 1) None s = Inr s'"
    "map_option functionStack_' (heap s' 0) =
        Some [\<lparr>rid = 1, active = True, callback = Fn 1, ctx = Obj 1\<rparr>,
              \<lparr>rid = 2, active = True, callback = Fn 1, ctx = Obj 1\<rparr>]"
    by auto
  with s show ?thesis by blast
qed

section \<open>Fire limits\<close>

text \<open>
  C6 (when the fire limit of a task reaches 0 and no registration is left, the teardown
  does nothing and raises no error). The code raises: with two registrations on a task
  of limit 1, the callback invoked first unschedules both, the read at index 0 then
  gives \<^verbatim>\<open>undefined\<close>, and line 89 reads \<^verbatim>\<open>f[1]\<close> of it.
\<close>

theorem teardown_raises_when_task_emptied:
  "(case alloc_Task 0 (Some 1) (init False False 0) of
      (task, s) \<Rightarrow>
        and_then
          (and_then (schedule (Fn 1) (Obj 1) (Some task) s)
             (schedule (Fn 2) (Obj 1) (Some task)))
          (dispatch_'
             \<lparr>body = (\<lambda>n. if n = 2
                           then [Unschedule (Fn 1) (Obj 1), Unschedule (Fn 2) (Obj 1)]
                           else []),
              getDirector = (\<lambda>c. None)\<rparr> 16))
   = Inl TypeError"
  by (simp add: manager_defs)

section \<open>The interval timer\<close>

text \<open>
  C7 (the interval timer never hands dispatch an elapsed time below 1 ms). Refuted as
  stated: a tick in the millisecond of the activation hands on 0, and the callback is
  given 0.
\<close>

theorem stepTimer_zero_delta:
  "and_then (schedule (Fn 1) (Obj 1) None (init False False 5))
     (\<lambda>s. and_then (stepTimer_' quiet s)
        (\<lambda>s'. Inr (stepTimer_delta s, map snd (calls s'))))
   = Inr (0, [0])"
  by (simp add: manager_defs)

text \<open>
  C7, amended: the elapsed time handed to dispatch is never negative; a negative
  measurement is replaced by 1, any other is handed on as measured. So, in a well-formed
  manager whose tasks are in cadence and whose registered callbacks do not call back
  into the manager, a tick of the interval timer gives no callback an elapsed time
  below the one handed to dispatch, hence none that is negative.
\<close>

theorem stepTimer_delta_clamped:
  "0 \<le> stepTimer_delta s \<and>
   stepTimer_delta s = (if now s - lastRunTime_' s < 0 then 1 else now s - lastRunTime_' s) \<and>
   stepTimer_' A s =
     and_then (dispatch_' A (stepTimer_delta s) s) (\<lambda>s'. Inr (s'\<lparr>lastRunTime_' := now s\<rparr>)) \<and>
   (well_formed s \<and> quiet_manager A s \<and> in_cadence s \<longrightarrow>
      (\<exists>s'. stepTimer_' A s = Inr s' \<and>
            (\<forall>e\<in>set (calls_since (length (calls s)) s'). stepTimer_delta s \<le> snd e)))"
proof -
  have nonneg: "0 \<le> stepTimer_delta s"
    by (simp add: stepTimer_delta_def Let_def)
  have val: "stepTimer_delta s = (if now s - lastRunTime_' s < 0 then 1 else now s - lastRunTime_' s)"
    by (simp add: stepTimer_delta_def Let_def)
  have run: "stepTimer_' A s =
     and_then (dispatch_' A (stepTimer_delta s) s) (\<lambda>s'. Inr (s'\<lparr>lastRunTime_' := now s\<rparr>))"
    by (simp add: stepTimer_'_def and_then_def Let_def)
  have obs: "\<exists>s'. stepTimer_' A s = Inr s' \<and>
            (\<forall>e\<in>set (calls_since (length (calls s)) s'). stepTimer_delta s \<le> snd e)"
    if h: "well_formed s \<and> quiet_manager A s \<and> in_cadence s"
  proof -
    from h have "well_formed s" "quiet_manager A s" "in_cadence s" by simp_all
    from dispatch_loop_elapsed [OF this nonneg order_refl]
    obtain s1 cs where s1: "dispatch_' A (stepTimer_delta s) s = Inr s1"
      "calls s1 = calls s @ cs" "\<forall>e\<in>set cs. stepTimer_delta s \<le> snd e"
      unfolding dispatch_'_def by blast
    let ?s' = "s1\<lparr>lastRunTime_' := now s\<rparr>"
    have "stepTimer_' A s = Inr ?s'"
      using run s1(1) by (simp add: and_then_def)
    moreover have "calls_since (length (calls s)) ?s' = cs"
      using s1(2) by (simp add: calls_since_def)
    ultimately show ?thesis using s1(3) by auto
  qed
  from nonneg val run obs show ?thesis by blast
qed

theorem stepTimer_delta_clamped_witness:
  "stepTimer_delta
     ((scheduled (Fn 1) (Obj 1) 0 (Task_new 0 None) (init False False 3))\<lparr>lastRunTime_' := 10\<rparr>) = 1 \<and>
   stepTimer_delta ((init False False 30)\<lparr>lastRunTime_' := 10\<rparr>) = 20 \<and>
   (\<exists>s'. stepTimer_' quiet
           ((scheduled (Fn 1) (Obj 1) 0 (Task_new 0 None) (init False False 3))\<lparr>lastRunTime_' := 10\<rparr>)
         = Inr s' \<and>
         list_all (\<lambda>e. 1 \<le> snd e) (calls_since 0 s'))"
proof -
  let ?a = "scheduled (Fn 1) (Obj 1) 0 (Task_new 0 None) (init False False 3)"
  let ?b = "?a\<lparr>lastRunTime_' := 10\<rparr>"
  have h0: "heap (init False False 3) 0 = Some (Task_new 0 None)"
    by (simp add: init_def)
  have "well_formed ?a"
    using wf_init h0 by (rule wf_scheduled)
  then have w: "well_formed ?b"
    by (simp add: well_formed_def)
  have q: "quiet_manager quiet ?b"
    by (simp add: quiet_manager_def quiet_def)
  have c: "in_cadence ?b"
    by (auto simp: in_cadence_def init_def Task_new_def split: if_splits)
  have d: "stepTimer_delta ?b = 1" "length (calls ?b) = 0"
    using stepTimer_delta_clamped [of ?b quiet]
    by (simp_all add: init_def)
  have e: "stepTimer_delta ((init False False 30)\<lparr>lastRunTime_' := 10\<rparr>) = 20"
    using stepTimer_delta_clamped [of "(init False False 30)\<lparr>lastRunTime_' := 10\<rparr>" quiet]
    by (simp add: init_def)
  from stepTimer_delta_clamped [of ?b quiet] w q c
  obtain s' where "stepTimer_' quiet ?b = Inr s'"
    "\<forall>e\<in>set (calls_since (length (calls ?b)) s'). stepTimer_delta ?b \<le> snd e"
    by blast
  then have "stepTimer_' quiet ?b = Inr s' \<and> list_all (\<lambda>e. 1 \<le> snd e) (calls_since 0 s')"
    unfolding d by (simp add: list_all_iff)
  with d(1) e show ?thesis by blast
qed

section \<open>Activation\<close>

text \<open>
  C10 (every activation of the clock sets the time of the last run to the current time,
  so that the first tick after it measures the time since the activation only). Refuted
  as stated, for an activation made by a callback during a tick: \<^verbatim>\<open>activate_\<close> sets
  the time of the last run, and the tick handler, once dispatch has returned, sets it
  to the time of the tick (lines 238, 249 and 264). With a function scheduled at time
  1000 whose callback takes 5 ms and then sets the display rate, the tick of the
  interval timer at 1016 restarts the clock at 1021 and leaves 1016 as the time of the
  last run: the next tick, at 1041, is handed on as 25 ms, not 20. Likewise under the
  animation frame handler, with a callback that takes 5 ms, unschedules itself, which
  stops the clock, and schedules itself again: the frame at 1033 reports 17 ms, not 12.
\<close>

theorem restart_during_tick_keeps_tick_time:
  "and_then (schedule (Fn 1) (Obj 1) None (init False False 1000))
     (\<lambda>s. and_then
        (stepTimer_'
           \<lparr>body = (\<lambda>n. [Elapse 5, SetDisplayRate 20]), getDirector = (\<lambda>c. None)\<rparr>
           (s\<lparr>now := 1016\<rparr>))
        (\<lambda>s'. Inr (host s', now s', lastRunTime_' s', stepTimer_delta (s'\<lparr>now := 1041\<rparr>))))
   = Inr ([SetInterval (100 / 3), ClearInterval 1, SetInterval 20], 1021, 1016, 25) \<and>
   and_then (schedule (Fn 1) (Obj 1) None (init True False 1000))
     (\<lambda>s. and_then
        (animationFrameHandler_'
           \<lparr>body = (\<lambda>n. [Elapse 5, Unschedule (Fn 1) (Obj 1), Schedule (Fn 1) (Obj 1) None]),
            getDirector = (\<lambda>c. None)\<rparr>
           1016 (s\<lparr>now := 1016\<rparr>))
        (\<lambda>s1. and_then
           (animationFrameHandler_'
              \<lparr>body = (\<lambda>n. [Elapse 5, Unschedule (Fn 1) (Obj 1), Schedule (Fn 1) (Obj 1) None]),
               getDirector = (\<lambda>c. None)\<rparr>
              1033 (s1\<lparr>now := 1033\<rparr>))
           (\<lambda>s2. Inr (host s1, now s1, lastRunTime_' s1, map snd (calls s2)))))
   = Inr ([WebkitRequestAnimationFrame, WebkitCancelRequestAnimationFrame,
           WebkitRequestAnimationFrame, WebkitRequestAnimationFrame], 1021, 1016, [16, 17])"
  by (simp add: manager_defs animationFrameHandler_'_def)

text \<open>
  C10, amended: an activation made outside the tick handlers is measured from. The clock
  is activated by a \<^verbatim>\<open>schedule\<close> on an inactive manager and re-activated by
  \<^verbatim>\<open>setDisplayRate\<close> on an active one; after either, the manager is active, the time of
  the last run is the current time, and the next tick hands dispatch the time elapsed
  since then: the interval timer at time \<open>t\<close> that time or, if it is negative, 1, the
  animation frame handlers given the time \<open>t\<close> that time as it is. A tick handler
  that returns leaves the time of its own tick as the time of the last run, whatever
  the callbacks did: the interval timer the time it read when it began, the animation
  frame handlers the time they were given. So the tick after an activation made by a
  callback is measured from the tick during which it was made.
\<close>

theorem activation_resets_lastRunTime:
  "(\<not> active_' s \<longrightarrow> lastRunTime_' (activate_' s) = now s \<and> active_' (activate_' s)) \<and>
   (\<not> active_' s \<and> schedule f c opt_task s = Inr s1 \<longrightarrow>
      active_' s1 \<and> lastRunTime_' s1 = now s \<and>
      stepTimer_delta (s1\<lparr>now := t\<rparr>) = (if t < now s then 1 else t - now s) \<and>
      animationFrameHandler_' A t s1 =
        and_then (dispatch_' A (t - now s) s1)
          (\<lambda>s'. Inr (s'\<lparr>lastRunTime_' := t, host := host s' @ [WebkitRequestAnimationFrame]\<rparr>)) \<and>
      beforePaintHandler_' A t s1 =
        and_then (dispatch_' A (t - now s) s1)
          (\<lambda>s'. Inr (s'\<lparr>lastRunTime_' := t, host := host s' @ [MozRequestAnimationFrame]\<rparr>))) \<and>
   (active_' s \<longrightarrow>
      active_' (setDisplayRate v s) \<and> lastRunTime_' (setDisplayRate v s) = now s \<and>
      stepTimer_delta ((setDisplayRate v s)\<lparr>now := t\<rparr>) = (if t < now s then 1 else t - now s) \<and>
      animationFrameHandler_' A t (setDisplayRate v s) =
        and_then (dispatch_' A (t - now s) (setDisplayRate v s))
          (\<lambda>s'. Inr (s'\<lparr>lastRunTime_' := t, host := host s' @ [WebkitRequestAnimationFrame]\<rparr>)) \<and>
      beforePaintHandler_' A t (setDisplayRate v s) =
        and_then (dispatch_' A (t - now s) (setDisplayRate v s))
          (\<lambda>s'. Inr (s'\<lparr>lastRunTime_' := t, host := host s' @ [MozRequestAnimationFrame]\<rparr>))) \<and>
   (stepTimer_' A s = Inr s' \<longrightarrow>
      lastRunTime_' s' = now s \<and>
      stepTimer_delta (s'\<lparr>now := t\<rparr>) = (if t < now s then 1 else t - now s)) \<and>
   (animationFrameHandler_' A t s = Inr s' \<longrightarrow> lastRunTime_' s' = t) \<and>
   (beforePaintHandler_' A t s = Inr s' \<longrightarrow> lastRunTime_' s' = t)"
proof -
  have act: "lastRunTime_' (activate_' s) = now s \<and> active_' (activate_' s)" if "\<not> active_' s"
    using that by (simp add: activate_'_def Let_def)
  have af: "animationFrameHandler_' A t x =
        and_then (dispatch_' A (t - lastRunTime_' x) x)
          (\<lambda>s'. Inr (s'\<lparr>lastRunTime_' := t, host := host s' @ [WebkitRequestAnimationFrame]\<rparr>))" for x
    by (simp add: animationFrameHandler_'_def and_then_def Let_def)
  have bp: "beforePaintHandler_' A t x =
        and_then (dispatch_' A (t - lastRunTime_' x) x)
          (\<lambda>s'. Inr (s'\<lparr>lastRunTime_' := t, host := host s' @ [MozRequestAnimationFrame]\<rparr>))" for x
    by (simp add: beforePaintHandler_'_def and_then_def Let_def)
  have st: "stepTimer_delta (x\<lparr>now := t\<rparr>) = (if t < lastRunTime_' x then 1 else t - lastRunTime_' x)" for x
    by (simp add: stepTimer_delta_def Let_def)
  have sch: "active_' s1 \<and> lastRunTime_' s1 = now s"
    if "\<not> active_' s" and "schedule f c opt_task s = Inr s1"
    using that
    by (auto simp: schedule_def activate_'_def Let_def
        split: option.splits list.splits objref.splits if_splits)
  have sdr: "active_' (setDisplayRate v s) \<and> lastRunTime_' (setDisplayRate v s) = now s"
    if "active_' s"
    using that by (simp add: setDisplayRate_def activate_'_def disable_'_def Let_def)
  have tick1: "lastRunTime_' s' = now s" if "stepTimer_' A s = Inr s'"
    using that by (auto simp: stepTimer_'_def Let_def split: sum.splits)
  have tick2: "lastRunTime_' s' = t" if "animationFrameHandler_' A t s = Inr s'"
    using that by (auto simp: animationFrameHandler_'_def Let_def split: sum.splits)
  have tick3: "lastRunTime_' s' = t" if "beforePaintHandler_' A t s = Inr s'"
    using that by (auto simp: beforePaintHandler_'_def Let_def split: sum.splits)
  show ?thesis
    using act sch sdr tick1 tick2 tick3
    by (simp add: af bp st)
qed

theorem activation_resets_lastRunTime_witness:
  "lastRunTime_' (activate_' ((init False False 7)\<lparr>lastRunTime_' := 2\<rparr>)) = 7 \<and>
   (\<exists>s1. schedule (Fn 1) (Obj 1) None ((init True False 7)\<lparr>lastRunTime_' := 2\<rparr>) = Inr s1 \<and>
      active_' s1 \<and> lastRunTime_' s1 = 7 \<and> stepTimer_delta (s1\<lparr>now := 40\<rparr>) = 33 \<and>
      animationFrameHandler_' quiet 40 s1 =
        and_then (dispatch_' quiet 33 s1)
          (\<lambda>s'. Inr (s'\<lparr>lastRunTime_' := 40, host := host s' @ [WebkitRequestAnimationFrame]\<rparr>)) \<and>
      beforePaintHandler_' quiet 40 s1 =
        and_then (dispatch_' quiet 33 s1)
          (\<lambda>s'. Inr (s'\<lparr>lastRunTime_' := 40, host := host s' @ [MozRequestAnimationFrame]\<rparr>))) \<and>
   lastRunTime_' (setDisplayRate 20 ((init False False 7)\<lparr>active_' := True\<rparr>)) = 7 \<and>
   stepTimer_delta ((setDisplayRate 20 ((init False False 7)\<lparr>active_' := True\<rparr>))\<lparr>now := 40\<rparr>) = 33 \<and>
   (\<exists>s s'. schedule (Fn 1) (Obj 1) None (init False False 1000) = Inr s \<and>
      stepTimer_' \<lparr>body = (\<lambda>n. [Elapse 5, SetDisplayRate 20]), getDirector = (\<lambda>c. None)\<rparr>
        (s\<lparr>now := 1016\<rparr>) = Inr s' \<and>
      now s' = 1021 \<and> lastRunTime_' s' = 1016 \<and> stepTimer_delta (s'\<lparr>now := 1041\<rparr>) = 25) \<and>
   (\<exists>s s'. schedule (Fn 1) (Obj 1) None (init True False 1000) = Inr s \<and>
      animationFrameHandler_'
        \<lparr>body = (\<lambda>n. [Elapse 5, Unschedule (Fn 1) (Obj 1), Schedule (Fn 1) (Obj 1) None]),
         getDirector = (\<lambda>c. None)\<rparr>
        1016 (s\<lparr>now := 1016\<rparr>) = Inr s' \<and>
      now s' = 1021 \<and> lastRunTime_' s' = 1016) \<and>
   (\<exists>s s'. schedule (Fn 1) (Obj 1) None (init True True 1000) = Inr s \<and>
      beforePaintHandler_'
        \<lparr>body = (\<lambda>n. [Elapse 5, Unschedule (Fn 1) (Obj 1), Schedule (Fn 1) (Obj 1) None]),
         getDirector = (\<lambda>c. None)\<rparr>
        1016 (s\<lparr>now := 1016\<rparr>) = Inr s' \<and>
      now s' = 1021 \<and> lastRunTime_' s' = 1016)"
proof -
  let ?s = "(init True False 7)\<lparr>lastRunTime_' := 2\<rparr>"
  let ?r = "(init False False 7)\<lparr>active_' := True\<rparr>"
  let ?A = "\<lparr>body = (\<lambda>n. [Elapse 5, SetDisplayRate 20]), getDirector = (\<lambda>c. None)\<rparr>"
  let ?B = "\<lparr>body = (\<lambda>n. [Elapse 5, Unschedule (Fn 1) (Obj 1), Schedule (Fn 1) (Obj 1) None]),
             getDirector = (\<lambda>c. None)\<rparr>"
  have z: "lastRunTime_' (activate_' ((init False False 7)\<lparr>lastRunTime_' := 2\<rparr>)) = 7"
    using activation_resets_lastRunTime [where s = "(init False False 7)\<lparr>lastRunTime_' := 2\<rparr>"]
    by (simp add: init_def)
  obtain s1 where s1: "schedule (Fn 1) (Obj 1) None ?s = Inr s1"
    by (simp add: manager_defs)
  have "\<not> active_' ?s" by (simp add: init_def)
  with s1 activation_resets_lastRunTime
    [where s = ?s and f = "Fn 1" and c = "Obj 1" and opt_task = None and ?s1.0 = s1
       and t = 40 and A = quiet]
  have a: "active_' s1 \<and> lastRunTime_' s1 = 7 \<and> stepTimer_delta (s1\<lparr>now := 40\<rparr>) = 33 \<and>
      animationFrameHandler_' quiet 40 s1 =
        and_then (dispatch_' quiet 33 s1)
          (\<lambda>s'. Inr (s'\<lparr>lastRunTime_' := 40, host := host s' @ [WebkitRequestAnimationFrame]\<rparr>)) \<and>
      beforePaintHandler_' quiet 40 s1 =
        and_then (dispatch_' quiet 33 s1)
          (\<lambda>s'. Inr (s'\<lparr>lastRunTime_' := 40, host := host s' @ [MozRequestAnimationFrame]\<rparr>))"
    by (simp add: init_def)
  have b: "lastRunTime_' (setDisplayRate 20 ?r) = 7 \<and>
      stepTimer_delta ((setDisplayRate 20 ?r)\<lparr>now := 40\<rparr>) = 33"
    using activation_resets_lastRunTime [where s = ?r and v = 20 and t = 40]
    by (simp add: init_def)
  obtain s where s: "schedule (Fn 1) (Obj 1) None (init False False 1000) = Inr s"
    by (simp add: manager_defs)
  obtain s' where s': "stepTimer_' ?A (s\<lparr>now := 1016\<rparr>) = Inr s'" and n: "now s' = 1021"
    using s by (auto simp: manager_defs)
  from s' activation_resets_lastRunTime
    [where s = "s\<lparr>now := 1016\<rparr>" and A = ?A and s' = s' and t = 1041]
  have c: "lastRunTime_' s' = 1016 \<and> stepTimer_delta (s'\<lparr>now := 1041\<rparr>) = 25"
    by simp
  obtain u where u: "schedule (Fn 1) (Obj 1) None (init True False 1000) = Inr u"
    by (simp add: manager_defs)
  obtain u' where u': "animationFrameHandler_' ?B 1016 (u\<lparr>now := 1016\<rparr>) = Inr u'"
    and nu: "now u' = 1021"
    using u by (auto simp: manager_defs animationFrameHandler_'_def)
  from u' activation_resets_lastRunTime
    [where s = "u\<lparr>now := 1016\<rparr>" and A = ?B and s' = u' and t = 1016]
  have d: "lastRunTime_' u' = 1016"
    by simp
  obtain w where w: "schedule (Fn 1) (Obj 1) None (init True True 1000) = Inr w"
    by (simp add: manager_defs)
  obtain w' where w': "beforePaintHandler_' ?B 1016 (w\<lparr>now := 1016\<rparr>) = Inr w'"
    and nw: "now w' = 1021"
    using w by (auto simp: manager_defs beforePaintHandler_'_def)
  from w' activation_resets_lastRunTime
    [where s = "w\<lparr>now := 1016\<rparr>" and A = ?B and s' = w' and t = 1016]
  have e: "lastRunTime_' w' = 1016"
    by simp
  have p1: "\<exists>s1. schedule (Fn 1) (Obj 1) None ?s = Inr s1 \<and>
      active_' s1 \<and> lastRunTime_' s1 = 7 \<and> stepTimer_delta (s1\<lparr>now := 40\<rparr>) = 33 \<and>
      animationFrameHandler_' quiet 40 s1 =
        and_then (dispatch_' quiet 33 s1)
          (\<lambda>s'. Inr (s'\<lparr>lastRunTime_' := 40, host := host s' @ [WebkitRequestAnimationFrame]\<rparr>)) \<and>
      beforePaintHandler_' quiet 40 s1 =
        and_then (dispatch_' quiet 33 s1)
          (\<lambda>s'. Inr (s'\<lparr>lastRunTime_' := 40, host := host s' @ [MozRequestAnimationFrame]\<rparr>))"
    using s1 a by blast
  have p2: "\<exists>s s'. schedule (Fn 1) (Obj 1) None (init False False 1000) = Inr s \<and>
      stepTimer_' ?A (s\<lparr>now := 1016\<rparr>) = Inr s' \<and>
      now s' = 1021 \<and> lastRunTime_' s' = 1016 \<and> stepTimer_delta (s'\<lparr>now := 1041\<rparr>) = 25"
    using s s' n c by blast
  have p3: "\<exists>s s'. schedule (Fn 1) (Obj 1) None (init True False 1000) = Inr s \<and>
      animationFrameHandler_' ?B 1016 (s\<lparr>now := 1016\<rparr>) = Inr s' \<and>
      now s' = 1021 \<and> lastRunTime_' s' = 1016"
    using u u' nu d by blast
  have p4: "\<exists>s s'. schedule (Fn 1) (Obj 1) None (init True True 1000) = Inr s \<and>
      beforePaintHandler_' ?B 1016 (s\<lparr>now := 1016\<rparr>) = Inr s' \<and>
      now s' = 1021 \<and> lastRunTime_' s' = 1016"
    using w w' nw e by blast
  from z p1 b p2 p3 p4 show ?thesis by (intro conjI) simp_all
qed

section \<open>Firing a task\<close>

text \<open>
  C4 (a task whose accumulator exceeds the tick only counts down; otherwise it invokes
  its active registrations, last registered first, with the elapsed time
  \<open>maxdelta + dt - delta\<close>, and its accumulator becomes
  \<open>max 0 (maxdelta - (dt - delta))\<close>; so the default task fires on every dispatch,
  with the tick as elapsed time). The code does not keep the last part under the
  animation frame handlers. They hand dispatch the difference of two times as it is
  (lines 236 and 247), without the guard that \<^verbatim>\<open>stepTimer_\<close> has at line 262; on a
  negative tick the default task takes the branch of line 73 and raises its
  accumulator. With a function scheduled at time 1000 and frames at 990, 995 and 1005
  the ticks are -10, 5 and 10: the first two invoke nothing and leave the accumulator
  at 10 and 5, the third reports 5. The interval timer, at the same times, invokes the
  function on every tick, with 1, 5 and 10. When no tick is negative, and the callbacks
  do not call back into the manager, a task fires as described
  (\<open>step_fires_due_task\<close>).
\<close>

theorem animation_frame_starves_default_task:
  "and_then (schedule (Fn 1) (Obj 1) None (init True False 1000))
     (\<lambda>s. and_then (animationFrameHandler_' quiet 990 s)
        (\<lambda>s1. and_then (animationFrameHandler_' quiet 995 s1)
           (\<lambda>s2. and_then (animationFrameHandler_' quiet 1005 s2)
              (\<lambda>s3. Inr (map (\<lambda>x. (map snd (calls x), map_option delta (heap x 0)))
                           [s1, s2, s3])))))
   = Inr [([], Some 10), ([], Some 5), ([5], Some 0)] \<and>
   and_then (schedule (Fn 1) (Obj 1) None (init True True 1000))
     (\<lambda>s. and_then (beforePaintHandler_' quiet 990 s)
        (\<lambda>s1. and_then (beforePaintHandler_' quiet 995 s1)
           (\<lambda>s2. and_then (beforePaintHandler_' quiet 1005 s2)
              (\<lambda>s3. Inr (map (\<lambda>x. (map snd (calls x), map_option delta (heap x 0)))
                           [s1, s2, s3])))))
   = Inr [([], Some 10), ([], Some 5), ([5], Some 0)] \<and>
   and_then (schedule (Fn 1) (Obj 1) None (init False False 1000))
     (\<lambda>s. and_then (stepTimer_' quiet (s\<lparr>now := 990\<rparr>))
        (\<lambda>s1. and_then (stepTimer_' quiet (s1\<lparr>now := 995\<rparr>))
           (\<lambda>s2. and_then (stepTimer_' quiet (s2\<lparr>now := 1005\<rparr>))
              (\<lambda>s3. Inr (map (\<lambda>x. (map snd (calls x), map_option delta (heap x 0)))
                           [s1, s2, s3])))))
   = Inr [([1], Some 0), ([1, 5], Some 0), ([1, 5, 10], Some 0)]"
  by (simp add: manager_defs animationFrameHandler_'_def beforePaintHandler_'_def)

section \<open>Calling once after a delay\<close>




section \<open>Pausing a group\<close>

text \<open>
  C8 (\<^verbatim>\<open>changeDirectorActivity\<close> sets the activity of exactly the registrations of the
  group; on the next tick no paused callback is invoked while the others fire; the
  paused registrations remain registered, and setting the group active resumes them).
  Refuted as stated: a tick counts the fire limit of a task down whether its
  registrations are paused or not, so a paused registration made by \<^verbatim>\<open>callAfter\<close> is
  removed by the first tick that reaches its delay, without having been invoked, and
  setting the group active again does not bring it back.
\<close>

theorem paused_registration_expires:
  "and_then (callAfter (Fn 1) (Obj 1) 10 (init False False 0))
     (\<lambda>s. and_then (changeDirectorActivity (\<lambda>c. if c = Obj 1 then Some (Obj 9) else None) (Obj 9) False s)
        (\<lambda>s1. and_then (dispatch_' quiet 16 s1)
           (\<lambda>s2. and_then (changeDirectorActivity (\<lambda>c. if c = Obj 1 then Some (Obj 9) else None) (Obj 9) True s2)
              (\<lambda>s3. and_then (dispatch_' quiet 16 s3)
                 (\<lambda>s4. Inr (map (get_functionStack_' s1) (taskStack_' s1),
                            map (get_functionStack_' s2) (taskStack_' s2),
                            calls s4))))))
   = Inr ([Some [], Some [\<lparr>rid = 2, active = False, callback = Fn 1, ctx = Obj 1\<rparr>]],
          [Some [], Some []], [])"
  by (simp add: manager_defs)

text \<open>
  C8, amended. For a well-formed manager whose registered contexts are objects and whose
  registered callbacks do not call back into the manager:
  \<^item> \<^verbatim>\<open>changeDirectorActivity\<close> returns the manager with the activity set on exactly the
    registrations of the group (\<open>regrouped\<close>), all registrations staying registered;
  \<^item> a tick dispatched after the group was paused ends in the state the same tick leaves
    without the pause, seen with the group paused (\<open>muted\<close>): the invocations made are
    those of the tick without the pause that are not of the group, and the registrations
    left are the same, a fire limit that expired having removed a registration of the
    group as it would have otherwise;
  \<^item> setting the group active right after pausing it makes its registrations active,
    with no new registration.
\<close>

theorem group_activity:
  assumes "well_formed s" and "object_contexts s" and "quiet_manager A s"
  shows "changeDirectorActivity G director v s = Inr (regrouped G director v s) \<and>
    (\<forall>tid. map_option (map rid \<circ> functionStack_') (heap (regrouped G director v s) tid) =
           map_option (map rid \<circ> functionStack_') (heap s tid)) \<and>
    (\<exists>s1 p1. dispatch_' A dt s = Inr s1 \<and>
       dispatch_' A dt (regrouped G director False s) = Inr p1 \<and>
       p1 = muted G director (length (calls s)) s1 \<and>
       drop (length (calls s)) (calls p1) =
         filter (\<lambda>e. \<not> in_group G director (fst e)) (drop (length (calls s)) (calls s1)) \<and>
       (\<forall>tid. map_option (map rid \<circ> functionStack_') (heap p1 tid) =
              map_option (map rid \<circ> functionStack_') (heap s1 tid))) \<and>
    changeDirectorActivity G director True (regrouped G director False s) =
      Inr (regrouped G director True s)"
proof -
  have a: "changeDirectorActivity G director v s = Inr (regrouped G director v s)"
    using assms(1,2) by (rule changeDirectorActivity_wf)
  have b: "map_option (map rid \<circ> functionStack_') (heap (regrouped G director v s) tid) =
           map_option (map rid \<circ> functionStack_') (heap s tid)" for tid
    by (cases "heap s tid") (simp_all add: comp_def)
  obtain s1 where s1: "dispatch_' A dt s = Inr s1" and
    len: "length (calls s) \<le> length (calls s1)" and
    m: "dispatch_' A dt (muted G director (length (calls s)) s) =
        map_sum id (muted G director (length (calls s))) (dispatch_' A dt s)"
    using dispatch_loop_muted [OF assms(1,3) order_refl order_refl, of dt G director]
    by (auto simp: dispatch_'_def)
  let ?p1 = "muted G director (length (calls s)) s1"
  have c1: "dispatch_' A dt (regrouped G director False s) = Inr ?p1"
    using m s1 by (simp add: muted_now)
  have c2: "drop (length (calls s)) (calls ?p1) =
         filter (\<lambda>e. \<not> in_group G director (fst e)) (drop (length (calls s)) (calls s1))"
    using len by simp
  have c3: "map_option (map rid \<circ> functionStack_') (heap ?p1 tid) =
              map_option (map rid \<circ> functionStack_') (heap s1 tid)" for tid
    by (cases "heap s1 tid") (simp_all add: comp_def)
  have "changeDirectorActivity G director True (regrouped G director False s) =
      Inr (regrouped G director True (regrouped G director False s))"
    using wf_regrouped [OF assms(1)] object_contexts_regrouped [OF assms(2)]
    by (rule changeDirectorActivity_wf)
  then have d: "changeDirectorActivity G director True (regrouped G director False s) =
      Inr (regrouped G director True s)"
    by (simp only: regrouped_regrouped)
  from a b s1 c1 c2 c3 d show ?thesis by blast
qed

theorem group_activity_witness:
  "\<exists>p1.
     changeDirectorActivity (\<lambda>c. if c = Obj 1 then Some (Obj 9) else None) (Obj 9) False
       (scheduled (Fn 2) (Obj 2) 0
          ((Task_new 0 None)\<lparr>functionStack_' := [\<lparr>rid = 1, active = True, callback = Fn 1, ctx = Obj 1\<rparr>]\<rparr>)
          (scheduled (Fn 1) (Obj 1) 0 (Task_new 0 None) (init False False 0))) =
     Inr (regrouped (\<lambda>c. if c = Obj 1 then Some (Obj 9) else None) (Obj 9) False
       (scheduled (Fn 2) (Obj 2) 0
          ((Task_new 0 None)\<lparr>functionStack_' := [\<lparr>rid = 1, active = True, callback = Fn 1, ctx = Obj 1\<rparr>]\<rparr>)
          (scheduled (Fn 1) (Obj 1) 0 (Task_new 0 None) (init False False 0)))) \<and>
     dispatch_' quiet 16
       (regrouped (\<lambda>c. if c = Obj 1 then Some (Obj 9) else None) (Obj 9) False
          (scheduled (Fn 2) (Obj 2) 0
             ((Task_new 0 None)\<lparr>functionStack_' := [\<lparr>rid = 1, active = True, callback = Fn 1, ctx = Obj 1\<rparr>]\<rparr>)
             (scheduled (Fn 1) (Obj 1) 0 (Task_new 0 None) (init False False 0)))) = Inr p1 \<and>
     calls p1 = [(\<lparr>rid = 2, active = True, callback = Fn 2, ctx = Obj 2\<rparr>, 16)]"
proof -
  let ?G = "\<lambda>c. if c = Obj 1 then Some (Obj 9) else None"
  let ?a = "scheduled (Fn 1) (Obj 1) 0 (Task_new 0 None) (init False False 0)"
  let ?ta = "(Task_new 0 None)\<lparr>functionStack_' := [\<lparr>rid = 1, active = True, callback = Fn 1, ctx = Obj 1\<rparr>]\<rparr>"
  let ?s = "scheduled (Fn 2) (Obj 2) 0 ?ta ?a"
  have h0: "heap (init False False 0) 0 = Some (Task_new 0 None)"
    by (simp add: init_def)
  have w0: "well_formed ?a"
    using wf_init h0 by (rule wf_scheduled)
  have h1: "heap ?a 0 = Some ?ta"
    by (simp add: init_def Task_new_def)
  have w: "well_formed ?s"
    using w0 h1 by (rule wf_scheduled)
  have o: "object_contexts ?s"
    by (auto simp: object_contexts_def init_def Task_new_def split: if_splits)
  have q: "quiet_manager quiet ?s"
    by (simp add: quiet_manager_def quiet_def)
  have c0: "calls ?s = []"
    by (simp add: init_def)
  have e: "map_sum id calls (dispatch_' quiet 16 ?s) =
      Inr [(\<lparr>rid = 2, active = True, callback = Fn 2, ctx = Obj 2\<rparr>, 16),
           (\<lparr>rid = 1, active = True, callback = Fn 1, ctx = Obj 1\<rparr>, 16)]"
    by (simp add: manager_defs scheduled_def)
  from group_activity [OF w o q, of ?G "Obj 9" False 16] obtain s1 p1 where
    a: "changeDirectorActivity ?G (Obj 9) False ?s = Inr (regrouped ?G (Obj 9) False ?s)" and
    s1: "dispatch_' quiet 16 ?s = Inr s1" and
    p1: "dispatch_' quiet 16 (regrouped ?G (Obj 9) False ?s) = Inr p1" and
    d: "drop (length (calls ?s)) (calls p1) =
         filter (\<lambda>e. \<not> in_group ?G (Obj 9) (fst e)) (drop (length (calls ?s)) (calls s1))"
    by blast
  from e s1 have "calls s1 =
      [(\<lparr>rid = 2, active = True, callback = Fn 2, ctx = Obj 2\<rparr>, 16),
       (\<lparr>rid = 1, active = True, callback = Fn 1, ctx = Obj 1\<rparr>, 16)]"
    by simp
  with d c0 have "calls p1 = [(\<lparr>rid = 2, active = True, callback = Fn 2, ctx = Obj 2\<rparr>, 16)]"
    by (simp add: in_group_def)
  with a p1 show ?thesis by blast
qed

section \<open>Unscheduling during a tick\<close>

text \<open>
  C9 (when a callback unschedules its own registration during a tick, every other
  registration of the task is still invoked exactly once). The code invokes another
  registration twice when the pair of the callback is registered twice below it, which
  line 141 allows: of the stack \<open>[1: f1, 2: f1, 3: f2]\<close>, registration 3 is invoked,
  then registration 2, whose callback unschedules the pair of \<open>f1\<close>; both its
  registrations leave the stack, registration 3 moves to index 0, and the loop, which
  goes on at index 0, invokes it again. With the pair registered once in the task the
  tick is not disturbed (\<open>step_self_unschedule\<close>).
\<close>

theorem self_unschedule_fires_other_twice:
  "and_then
     (and_then
        (and_then (schedule (Fn 1) (Obj 1) None (init False False 0))
           (schedule (Fn 1) (Obj 1) None))
        (schedule (Fn 2) (Obj 2) None))
     (\<lambda>s. and_then
        (dispatch_'
           \<lparr>body = (\<lambda>n. if n = 1 then [Unschedule (Fn 1) (Obj 1)] else []),
            getDirector = (\<lambda>c. None)\<rparr> 16 s)
        (\<lambda>s'. Inr (map_option (map (\<lambda>r. (rid r, callback r))) (get_functionStack_' s (TaskRef 0)),
                   map (\<lambda>e. rid (fst e)) (calls s'))))
   = Inr (Some [(1, Fn 1), (2, Fn 1), (3, Fn 2)], [3, 2, 3])"
  by (simp add: manager_defs)

end
